theory Spec2Isabelle
  imports Main
begin

section \<open>The dhruva shell: read, split, dispatch, launch\<close>

text \<open>
  A shallow embedding of \<^verbatim>\<open>src/main.c\<close> of the dhruva shell: the line reader
  \<^verbatim>\<open>dsh_read_line\<close>, the tokenizer \<^verbatim>\<open>dsh_split_line\<close>, the launcher
  \<^verbatim>\<open>dsh_launch\<close> and the main loop \<^verbatim>\<open>dsh_loop\<close>. Everything the C code takes from
  its environment is an explicit argument of the model: the characters waiting on stdin, the
  answers of the allocator, the result of \<^verbatim>\<open>fork\<close>, \<^verbatim>\<open>execvp\<close> and
  \<^verbatim>\<open>waitpid\<close>.
\<close>

subsection \<open>C integers, process exit and undefined behaviour\<close>

text \<open>
  \<^verbatim>\<open>bufsize\<close> and \<^verbatim>\<open>position\<close> are C \<^verbatim>\<open>int\<close>s. The model keeps their
  values as HOL integers and checks the range at every arithmetic operation: \<^verbatim>\<open>int\<close> is 32 bits
  wide (as on the systems that offer \<^verbatim>\<open>fork\<close> and \<^verbatim>\<open>waitpid\<close>), and a signed
  overflow is undefined behaviour, which ends the run with \<open>SignedOverflow\<close>.
  \<^verbatim>\<open>size_t\<close> is taken to be 64 bits wide, so that the sizes handed to \<^verbatim>\<open>malloc\<close> and
  \<^verbatim>\<open>realloc\<close> (\<^verbatim>\<open>bufsize\<close>, or \<^verbatim>\<open>bufsize * sizeof(char*)\<close>) never wrap.
\<close>

definition INT_MAX :: int where
  "INT_MAX = 2147483647"

definition EXIT_SUCCESS :: int where
  "EXIT_SUCCESS = 0"

definition EXIT_FAILURE :: int where
  "EXIT_FAILURE = 1"

text \<open>
  The ways a call can end without returning to its caller. \<open>ProcessExit diag code\<close> is
  \<^verbatim>\<open>exit(code)\<close>, after \<open>diag\<close> was written to stderr; \<open>ImageReplaced\<close> is a successful
  \<^verbatim>\<open>execvp\<close>; the others are undefined behaviour of the C program.
\<close>

datatype abort =
    ProcessExit string int
  | ImageReplaced string "string list"
  | SignedOverflow
  | OutOfBounds
  | UninitialisedRead
  | NullPointer
  | WildPointer

text \<open>
  Both allocation checks of the source print the same line and leave with the same status:
  \<^verbatim>\<open>fprintf(stderr, "dsh: allocation error\n"); exit(EXIT_FAILURE);\<close>
\<close>

definition allocation_error :: abort where
  "allocation_error = ProcessExit (''dsh: allocation error'' @ [CHR 0x0A]) EXIT_FAILURE"

subsection \<open>Growable buffers\<close>

text \<open>
  The line buffer and the token array are handled by the same three local variables in both
  functions: the capacity \<^verbatim>\<open>bufsize\<close>, the write index \<^verbatim>\<open>position\<close> and the pointer to
  the heap block. \<open>cells\<close> is the heap block itself, one entry per element actually allocated;
  \<open>None\<close> is an element that was never written (malloc and realloc do not initialise).
\<close>

record 'a dynbuf =
  bufsize :: int
  position :: int
  cells :: "'a option list"

text \<open>
  The allocator is an oracle \<open>ok\<close>: \<open>ok k\<close> tells whether the \<open>k\<close>-th allocation request
  of the process (malloc or realloc) succeeds. Every function that allocates takes the number of
  requests made so far and returns the new count.
\<close>

definition malloc_cells :: "int \<Rightarrow> 'a option list" where
  "malloc_cells n = replicate (nat n) None"

definition realloc_cells :: "'a option list \<Rightarrow> int \<Rightarrow> 'a option list" where
  "realloc_cells old n = take (nat n) old @ replicate (nat n - length old) None"

text \<open>\<^verbatim>\<open>buffer[position] = v\<close>: a store outside the allocated block is undefined behaviour.\<close>

definition store :: "'a dynbuf \<Rightarrow> 'a \<Rightarrow> abort + 'a dynbuf" where
  "store b v =
     (if 0 \<le> position b \<and> nat (position b) < length (cells b)
      then Inr (b\<lparr>cells := (cells b)[nat (position b) := Some v]\<rparr>)
      else Inl OutOfBounds)"

text \<open>\<^verbatim>\<open>position++\<close>\<close>

definition advance :: "'a dynbuf \<Rightarrow> abort + 'a dynbuf" where
  "advance b =
     (if position b + 1 > INT_MAX then Inl SignedOverflow
      else Inr (b\<lparr>position := position b + 1\<rparr>))"

text \<open>
  The growth block, which both functions carry with their own increment:
  \<^verbatim>\<open>if (position >= bufsize) { bufsize += INC; p = realloc(p, bufsize ...);
  if (!p) { fprintf(stderr, "dsh: allocation error\n"); exit(EXIT_FAILURE); } }\<close>
\<close>

definition grow_by :: "int \<Rightarrow> (nat \<Rightarrow> bool) \<Rightarrow> nat \<Rightarrow> 'a dynbuf \<Rightarrow> abort + (nat \<times> 'a dynbuf)" where
  "grow_by inc ok k b =
     (if position b \<ge> bufsize b then
        (if bufsize b + inc > INT_MAX then Inl SignedOverflow
         else if ok k then
           Inr (Suc k, b\<lparr>bufsize := bufsize b + inc,
                          cells := realloc_cells (cells b) (bufsize b + inc)\<rparr>)
         else Inl allocation_error)
      else Inr (k, b))"

text \<open>
  One pass of either loop body for an element that is kept: store it, advance the position,
  grow if the position has reached the capacity.
\<close>

definition push :: "int \<Rightarrow> (nat \<Rightarrow> bool) \<Rightarrow> nat \<Rightarrow> 'a dynbuf \<Rightarrow> 'a \<Rightarrow> abort + (nat \<times> 'a dynbuf)" where
  "push inc ok k b v =
     (case store b v of
        Inl a \<Rightarrow> Inl a
      | Inr b1 \<Rightarrow>
          (case advance b1 of
             Inl a \<Rightarrow> Inl a
           | Inr b2 \<Rightarrow> grow_by inc ok k b2))"

subsection \<open>The line reader\<close>

definition DSH_RL_BUFSIZE :: int where
  "DSH_RL_BUFSIZE = 1024"

definition NUL :: char where
  "NUL = CHR 0x00"

definition newline :: char where
  "newline = CHR 0x0A"

definition rl_initial :: "char dynbuf" where
  "rl_initial = \<lparr>bufsize = DSH_RL_BUFSIZE, position = 0, cells = malloc_cells DSH_RL_BUFSIZE\<rparr>"

text \<open>
  The \<^verbatim>\<open>while (1)\<close> loop of \<^verbatim>\<open>dsh_read_line\<close>. The last argument is what stdin still
  holds: \<^verbatim>\<open>getchar()\<close> takes its first character, and returns \<^verbatim>\<open>EOF\<close> when it is empty.
  The loop returns its final local state, the allocation count and the unread rest of stdin.
\<close>

fun rl_loop :: "(nat \<Rightarrow> bool) \<Rightarrow> nat \<Rightarrow> char dynbuf \<Rightarrow> char list \<Rightarrow> abort + (char dynbuf \<times> nat \<times> char list)" where
  "rl_loop ok k b [] =
     (case store b NUL of Inl a \<Rightarrow> Inl a | Inr b' \<Rightarrow> Inr (b', k, []))"
| "rl_loop ok k b (c # cs) =
     (if c = newline then
        (case store b NUL of Inl a \<Rightarrow> Inl a | Inr b' \<Rightarrow> Inr (b', k, cs))
      else
        (case push DSH_RL_BUFSIZE ok k b c of
           Inl a \<Rightarrow> Inl a
         | Inr (k', b') \<Rightarrow> rl_loop ok k' b' cs))"

text \<open>
  \<^verbatim>\<open>dsh_read_line\<close>: allocate, check, loop. The C function returns the pointer to the block;
  the model returns the block's contents (with the allocation count and the rest of stdin).
\<close>

definition dsh_read_line :: "(nat \<Rightarrow> bool) \<Rightarrow> nat \<Rightarrow> char list \<Rightarrow> abort + (char option list \<times> nat \<times> char list)" where
  "dsh_read_line ok k input =
     (if ok k then
        (case rl_loop ok (Suc k) rl_initial input of
           Inl a \<Rightarrow> Inl a
         | Inr (b, k', rest) \<Rightarrow> Inr (cells b, k', rest))
      else Inl allocation_error)"

text \<open>
  How a consumer reads a C string out of a block: the characters before the first
  \<^verbatim>\<open>'\0'\<close>. Running off the block or reading a cell never written is undefined behaviour.
\<close>

fun c_string :: "char option list \<Rightarrow> abort + string" where
  "c_string [] = Inl OutOfBounds"
| "c_string (None # cs) = Inl UninitialisedRead"
| "c_string (Some c # cs) =
     (if c = NUL then Inr []
      else (case c_string cs of Inl a \<Rightarrow> Inl a | Inr s \<Rightarrow> Inr (c # s)))"


subsection \<open>The tokenizer\<close>

definition DSH_TOK_BUFSIZE :: int where
  "DSH_TOK_BUFSIZE = 64"

text \<open>\<^verbatim>\<open>#define DSH_TOK_DELIM " \t\r\n\a"\<close>: space, tab, carriage return, newline, bell.\<close>

definition DSH_TOK_DELIM :: string where
  "DSH_TOK_DELIM = [CHR 0x20, CHR 0x09, CHR 0x0D, CHR 0x0A, CHR 0x07]"

definition is_delim :: "string \<Rightarrow> char \<Rightarrow> bool" where
  "is_delim delim c \<longleftrightarrow> c \<in> set delim"

text \<open>
  Addresses are natural numbers. A pointer into the line is kept as its offset from the start of
  the line together with the string it reads; its address is the address of the line plus the
  offset.

  \<^verbatim>\<open>strtok\<close> is the C library's. Its scan, from the place where it starts: skip the
  delimiters; if nothing is left there is no token; otherwise the token runs up to the next
  delimiter, which is overwritten by \<^verbatim>\<open>'\0'\<close>, and the next scan starts behind it (or at
  the end of the string when the token reached it). The result is the pointer to the token (or
  nothing, for \<^verbatim>\<open>NULL\<close>) and the pointer at which the next scan starts, which the library
  keeps in a static variable and the model passes explicitly. The strings are C strings: the
  callers hand over what \<open>c_string\<close> reads, which holds no \<^verbatim>\<open>'\0'\<close>.
\<close>

definition strtok_scan :: "string \<Rightarrow> nat \<times> string \<Rightarrow> (nat \<times> string) option \<times> (nat \<times> string)" where
  "strtok_scan delim cur =
     (let off = fst cur; s = snd cur;
          skipped = length (takeWhile (is_delim delim) s);
          s1 = dropWhile (is_delim delim) s in
      if s1 = [] then (None, (off + length s, []))
      else
        (let t = takeWhile (\<lambda>c. \<not> is_delim delim c) s1;
             r = dropWhile (\<lambda>c. \<not> is_delim delim c) s1 in
         (Some (off + skipped, t),
          (off + skipped + length t + (if r = [] then 0 else 1), drop 1 r))))"

text \<open>
  \<^verbatim>\<open>strtok(str, delim)\<close>: with a string it scans that string, with \<^verbatim>\<open>NULL\<close> (here
  \<open>None\<close>) it goes on from the saved place.
\<close>

definition strtok :: "(nat \<times> string) option \<Rightarrow> string \<Rightarrow> nat \<times> string \<Rightarrow> (nat \<times> string) option \<times> (nat \<times> string)" where
  "strtok str delim saved = strtok_scan delim (case str of Some c \<Rightarrow> c | None \<Rightarrow> saved)"

text \<open>
  The source file includes no \<^verbatim>\<open>string.h\<close> and declares \<^verbatim>\<open>strtok\<close> nowhere, so both
  calls go through the implicit declaration \<^verbatim>\<open>int strtok()\<close>: the caller takes the result
  for an \<^verbatim>\<open>int\<close>, that is the low 32 bits of the pointer, and the assignment to
  \<^verbatim>\<open>char *token\<close> extends that \<^verbatim>\<open>int\<close> with its sign to the 64 bits of a pointer.
\<close>

definition implicit_int :: "nat \<Rightarrow> nat" where
  "implicit_int p =
     (if p mod 2 ^ 32 < 2 ^ 31 then p mod 2 ^ 32 else p mod 2 ^ 32 + (2 ^ 64 - 2 ^ 32))"

text \<open>
  A pointer value as \<^verbatim>\<open>char *token\<close> and the entries of the token array hold it: the null
  pointer, a pointer to a token (modelled by the characters it reads), or an address that is not
  the token's. Reading through the last is undefined behaviour (\<open>WildPointer\<close>).
\<close>

datatype tokptr = NULL | Tok string | Wild nat

text \<open>
  What \<^verbatim>\<open>token\<close> holds after \<^verbatim>\<open>token = strtok(...)\<close>, for a line at address
  \<open>base\<close>: the null pointer when the value taken for the result is 0, the token's pointer when
  its address comes through unchanged, and another address otherwise.
\<close>

definition implicit_result :: "nat \<Rightarrow> (nat \<times> string) option \<Rightarrow> tokptr" where
  "implicit_result base r =
     (case r of
        None \<Rightarrow> NULL
      | Some tok \<Rightarrow>
          (if implicit_int (base + fst tok) = 0 then NULL
           else if implicit_int (base + fst tok) = base + fst tok then Tok (snd tok)
           else Wild (implicit_int (base + fst tok))))"

definition tok_initial :: "tokptr dynbuf" where
  "tok_initial = \<lparr>bufsize = DSH_TOK_BUFSIZE, position = 0, cells = malloc_cells DSH_TOK_BUFSIZE\<rparr>"

text \<open>
  The \<^verbatim>\<open>while (token != NULL)\<close> loop of \<^verbatim>\<open>dsh_split_line\<close>, with the store of the end
  marker that follows it. \<open>base\<close> is the address of the line. The loop returns its final local
  state and the allocation count.
\<close>

function tok_loop :: "nat \<Rightarrow> (nat \<Rightarrow> bool) \<Rightarrow> nat \<Rightarrow> tokptr dynbuf \<Rightarrow> tokptr \<Rightarrow> nat \<times> string \<Rightarrow> abort + (tokptr dynbuf \<times> nat)" where
  "tok_loop base ok k b token saved =
     (if token = NULL then
        (case store b NULL of Inl a \<Rightarrow> Inl a | Inr b' \<Rightarrow> Inr (b', k))
      else
        (case push DSH_TOK_BUFSIZE ok k b token of
           Inl a \<Rightarrow> Inl a
         | Inr (k', b') \<Rightarrow>
             tok_loop base ok k' b'
               (implicit_result base (fst (strtok None DSH_TOK_DELIM saved)))
               (snd (strtok None DSH_TOK_DELIM saved))))"
  by pat_completeness auto
termination
proof (relation "measure (\<lambda>(base, ok, k, b, token, saved). if token = NULL then 0 else Suc (length (snd saved)))")
  show "wf (measure (\<lambda>(base, ok, k, b, token, saved). if token = NULL then 0 else Suc (length (snd saved))))"
    by simp
next
  fix base :: nat and ok :: "nat \<Rightarrow> bool" and k :: nat and b :: "tokptr dynbuf"
    and token :: tokptr and saved :: "nat \<times> string" and x2 x y
  assume nn: "token \<noteq> NULL"
  have shorter: "length (drop 1 (dropWhile Q (dropWhile P s))) < length s"
    if ne: "dropWhile P s \<noteq> []" for P Q :: "char \<Rightarrow> bool" and s
  proof (cases "dropWhile Q (dropWhile P s)")
    case Nil
    have "s \<noteq> []" using ne by auto
    then show ?thesis unfolding Nil by simp
  next
    case (Cons a l)
    have "length (dropWhile Q (dropWhile P s)) \<le> length s"
      using length_dropWhile_le[of Q "dropWhile P s"] length_dropWhile_le[of P s] by simp
    then show ?thesis unfolding Cons by simp
  qed
  show "((base, ok, y, x2, implicit_result base (fst (strtok None DSH_TOK_DELIM saved)),
          snd (strtok None DSH_TOK_DELIM saved)),
         (base, ok, k, b, token, saved))
        \<in> measure (\<lambda>(base, ok, k, b, token, saved). if token = NULL then 0 else Suc (length (snd saved)))"
    using nn shorter[of "is_delim DSH_TOK_DELIM" "snd saved" "\<lambda>c. \<not> is_delim DSH_TOK_DELIM c"]
    by (simp add: strtok_def strtok_scan_def Let_def implicit_result_def)
qed

declare tok_loop.simps [simp del]

text \<open>
  \<^verbatim>\<open>dsh_split_line\<close>: allocate, check, first \<^verbatim>\<open>strtok(line, DSH_TOK_DELIM)\<close>, loop.
  The argument \<^verbatim>\<open>line\<close> is given by its address \<open>base\<close> and the string it reads. The first
  call passes the line, so what the static pointer held before plays no part. The model returns
  the contents of the token array and the allocation count.
\<close>

definition dsh_split_line :: "nat \<Rightarrow> (nat \<Rightarrow> bool) \<Rightarrow> nat \<Rightarrow> string \<Rightarrow> abort + (tokptr option list \<times> nat)" where
  "dsh_split_line base ok k line =
     (if ok k then
        (case tok_loop base ok (Suc k) tok_initial
                (implicit_result base (fst (strtok (Some (0, line)) DSH_TOK_DELIM (0, []))))
                (snd (strtok (Some (0, line)) DSH_TOK_DELIM (0, []))) of
           Inl a \<Rightarrow> Inl a
         | Inr (b, k') \<Rightarrow> Inr (cells b, k'))
      else Inl allocation_error)"

text \<open>
  How a consumer walks a token array and reads the tokens: entry by entry up to the end marker.
  \<open>arg_at\<close> is the read of one entry (the pointer, not what it points to).
\<close>

fun argv_of :: "tokptr option list \<Rightarrow> abort + string list" where
  "argv_of [] = Inl OutOfBounds"
| "argv_of (None # r) = Inl UninitialisedRead"
| "argv_of (Some NULL # r) = Inr []"
| "argv_of (Some (Wild p) # r) = Inl WildPointer"
| "argv_of (Some (Tok t) # r) =
     (case argv_of r of Inl a \<Rightarrow> Inl a | Inr ts \<Rightarrow> Inr (t # ts))"

definition arg_at :: "tokptr option list \<Rightarrow> nat \<Rightarrow> abort + tokptr" where
  "arg_at args i =
     (if i < length args then
        (case args ! i of None \<Rightarrow> Inl UninitialisedRead | Some p \<Rightarrow> Inr p)
      else Inl OutOfBounds)"


subsection \<open>The process and its surroundings\<close>

text \<open>
  What the shell process can observe and change: the unread part of stdin, what it has written to
  stdout and stderr, its working directory, and two counters that index the oracles (allocation
  requests and launches made so far).
\<close>

record world =
  stdin :: "char list"
  stdout :: string
  stderr :: string
  cwd :: string
  allocs :: nat
  launches :: nat

text \<open>\<^verbatim>\<open>perror(s)\<close> writes \<^verbatim>\<open>s\<close>, a colon, the text of \<^verbatim>\<open>errno\<close> and a newline to stderr.\<close>

definition perror :: "string \<Rightarrow> string \<Rightarrow> string" where
  "perror s msg = s @ '': '' @ msg @ [CHR 0x0A]"

subsection \<open>The launcher\<close>

text \<open>
  The status that \<^verbatim>\<open>waitpid\<close> stores, as the macros of \<^verbatim>\<open>sys/wait.h\<close> decode it: the
  child exited, was terminated by a signal, or (reported because of \<^verbatim>\<open>WUNTRACED\<close>) was
  stopped.
\<close>

datatype wstatus = Exited int | Signaled int | Stopped int

fun WIFEXITED :: "wstatus \<Rightarrow> bool" where
  "WIFEXITED (Exited c) = True"
| "WIFEXITED (Signaled n) = False"
| "WIFEXITED (Stopped n) = False"

fun WIFSIGNALED :: "wstatus \<Rightarrow> bool" where
  "WIFSIGNALED (Exited c) = False"
| "WIFSIGNALED (Signaled n) = True"
| "WIFSIGNALED (Stopped n) = False"

text \<open>
  One call of \<^verbatim>\<open>waitpid(pid, &status, WUNTRACED)\<close>: it stores a status, or fails and leaves
  \<^verbatim>\<open>status\<close> as it was, or never comes back because the child never changes state.
\<close>

datatype wait_result = Reported wstatus | WaitFailed | NeverReturns

text \<open>
  What one call of \<^verbatim>\<open>dsh_launch\<close> meets: the value \<^verbatim>\<open>fork\<close> returns in the process
  that is followed (0 in the child, negative on failure, the child's pid in the parent) with the
  error text for \<^verbatim>\<open>perror\<close>, whether \<^verbatim>\<open>execvp\<close> fails (and with which error text), and
  what the successive calls of \<^verbatim>\<open>waitpid\<close> do.
\<close>

record launch_env =
  fork_pid :: int
  fork_error :: string
  exec_error :: "string option"
  wait_reports :: "nat \<Rightarrow> wait_result"

text \<open>The local \<^verbatim>\<open>status\<close> after a call of \<^verbatim>\<open>waitpid\<close>; \<open>None\<close> is uninitialised.\<close>

fun waitpid_status :: "wait_result \<Rightarrow> wstatus option \<Rightarrow> wstatus option" where
  "waitpid_status (Reported s) old = Some s"
| "waitpid_status WaitFailed old = old"
| "waitpid_status NeverReturns old = old"

text \<open>
  The \<^verbatim>\<open>do { wpid = waitpid(...); } while (!WIFEXITED(status) && !WIFSIGNALED(status));\<close>
  loop. \<open>i\<close> counts the calls of \<^verbatim>\<open>waitpid\<close> made before; the loop returns the number of
  calls it has made when it ends, and \<open>None\<close> is a loop that never gives control back.
\<close>

partial_function (option) wait_loop :: "(nat \<Rightarrow> wait_result) \<Rightarrow> wstatus option \<Rightarrow> nat \<Rightarrow> (abort + nat) option" where
  "wait_loop rep status i =
     (if rep i = NeverReturns then None
      else (case waitpid_status (rep i) status of
              None \<Rightarrow> Some (Inl UninitialisedRead)
            | Some s \<Rightarrow>
                if \<not> WIFEXITED s \<and> \<not> WIFSIGNALED s
                then wait_loop rep (Some s) (Suc i)
                else Some (Inr (Suc i))))"

text \<open>
  \<^verbatim>\<open>dsh_launch\<close>. In the child, \<^verbatim>\<open>execvp(args[0], args)\<close> either replaces the program
  image or fails, and then the child prints and exits. When \<^verbatim>\<open>fork\<close> fails the parent
  prints and goes on. Otherwise the parent waits. \<open>None\<close>: the call never returns.
\<close>

definition dsh_launch :: "launch_env \<Rightarrow> tokptr option list \<Rightarrow> world \<Rightarrow> (abort + (int \<times> world)) option" where
  "dsh_launch e args w =
     (if fork_pid e = 0 then
        (case argv_of args of
           Inl a \<Rightarrow> Some (Inl a)
         | Inr argv \<Rightarrow>
             (case argv of
                [] \<Rightarrow> Some (Inl NullPointer)
              | prog # rest \<Rightarrow>
                  (case exec_error e of
                     None \<Rightarrow> Some (Inl (ImageReplaced prog argv))
                   | Some msg \<Rightarrow> Some (Inl (ProcessExit (perror ''dsh'' msg) EXIT_FAILURE)))))
      else if fork_pid e < 0 then
        Some (Inr (1, w\<lparr>stderr := stderr w @ perror ''dsh'' (fork_error e)\<rparr>))
      else
        (case wait_loop (wait_reports e) None 0 of
           None \<Rightarrow> None
         | Some (Inl a) \<Rightarrow> Some (Inl a)
         | Some (Inr n) \<Rightarrow> Some (Inr (1, w))))"

subsection \<open>The dispatcher and the built-ins\<close>

text \<open>
  The oracles of a whole run of the shell, and the texts of the built-ins' messages, which the
  specification does not fix: the allocator, the surroundings of the \<open>n\<close>-th launch, and
  \<^verbatim>\<open>chdir\<close> (from the working directory and the path to an error text or the new working
  directory). \<open>alloc_addr k\<close> is the address that the \<open>k\<close>-th allocation request
  returns when it succeeds.
\<close>

record shell_env =
  alloc_ok :: "nat \<Rightarrow> bool"
  alloc_addr :: "nat \<Rightarrow> nat"
  launch_env_of :: "nat \<Rightarrow> launch_env"
  chdir_result :: "string \<Rightarrow> string \<Rightarrow> string + string"
  cd_usage :: string
  help_text :: string

text \<open>
  Modelled from the spec: the built-in \<^verbatim>\<open>cd\<close>, whose definition is not among the
  source files. Token 1 is the directory; without it a usage diagnostic is written and nothing
  changes; when \<^verbatim>\<open>chdir\<close> fails an error diagnostic is written; the signal is "continue".
\<close>

definition dsh_cd :: "shell_env \<Rightarrow> tokptr option list \<Rightarrow> world \<Rightarrow> abort + (int \<times> world)" where
  "dsh_cd env args w =
     (case arg_at args 1 of
        Inl a \<Rightarrow> Inl a
      | Inr NULL \<Rightarrow> Inr (1, w\<lparr>stderr := stderr w @ cd_usage env\<rparr>)
      | Inr (Wild p) \<Rightarrow> Inl WildPointer
      | Inr (Tok dir) \<Rightarrow>
          (case chdir_result env (cwd w) dir of
             Inl msg \<Rightarrow> Inr (1, w\<lparr>stderr := stderr w @ perror ''dsh'' msg\<rparr>)
           | Inr d \<Rightarrow> Inr (1, w\<lparr>cwd := d\<rparr>)))"

text \<open>
  Modelled from the spec: the built-in \<^verbatim>\<open>help\<close>, whose definition is not among the
  source files. It prints a static text and signals "continue".
\<close>

definition dsh_help :: "shell_env \<Rightarrow> tokptr option list \<Rightarrow> world \<Rightarrow> abort + (int \<times> world)" where
  "dsh_help env args w = Inr (1, w\<lparr>stdout := stdout w @ help_text env\<rparr>)"

text \<open>
  Modelled from the spec: the built-in \<^verbatim>\<open>exit\<close>, whose definition is not among the
  source files. No side effect; the signal is "stop".
\<close>

definition dsh_exit :: "shell_env \<Rightarrow> tokptr option list \<Rightarrow> world \<Rightarrow> abort + (int \<times> world)" where
  "dsh_exit env args w = Inr (0, w)"

text \<open>
  Modelled from the spec: the table of built-ins, whose definition is not among the source
  files. The names \<^verbatim>\<open>cd\<close>, \<^verbatim>\<open>help\<close>, \<^verbatim>\<open>exit\<close> in this order, each with its
  handler.
\<close>

definition builtins :: "(string \<times> (shell_env \<Rightarrow> tokptr option list \<Rightarrow> world \<Rightarrow> abort + (int \<times> world))) list" where
  "builtins = [(''cd'', dsh_cd), (''help'', dsh_help), (''exit'', dsh_exit)]"

text \<open>
  Modelled from the spec: the search of the table, part of the missing \<^verbatim>\<open>dsh_execute\<close>.
  The entries are compared with token 0 one after the other by string equality; the first equal
  entry wins.
\<close>

fun find_builtin :: "string \<Rightarrow> (string \<times> 'h) list \<Rightarrow> 'h option" where
  "find_builtin name [] = None"
| "find_builtin name ((n, h) # rest) = (if name = n then Some h else find_builtin name rest)"

text \<open>
  Modelled from the spec: the dispatcher \<^verbatim>\<open>dsh_execute\<close>, which \<^verbatim>\<open>dsh_loop\<close> calls
  and whose definition is not among the source files. No token: "continue" at once. A built-in
  name: its handler. Anything else: the launcher.
\<close>

definition dsh_execute :: "shell_env \<Rightarrow> tokptr option list \<Rightarrow> world \<Rightarrow> (abort + (int \<times> world)) option" where
  "dsh_execute env args w =
     (case arg_at args 0 of
        Inl a \<Rightarrow> Some (Inl a)
      | Inr NULL \<Rightarrow> Some (Inr (1, w))
      | Inr (Wild p) \<Rightarrow> Some (Inl WildPointer)
      | Inr (Tok name) \<Rightarrow>
          (case find_builtin name builtins of
             Some handler \<Rightarrow> Some (handler env args w)
           | None \<Rightarrow>
               dsh_launch (launch_env_of env (launches w)) args
                 (w\<lparr>launches := Suc (launches w)\<rparr>)))"

subsection \<open>The main loop\<close>

text \<open>
  One pass of the \<^verbatim>\<open>do ... while (status)\<close> loop of \<^verbatim>\<open>dsh_loop\<close>: print the prompt,
  read, split, execute. \<^verbatim>\<open>dsh_split_line\<close> reads its argument as a C string; the
  pointer it is given is the one \<^verbatim>\<open>dsh_read_line\<close> returns, whose address is what the last
  allocation request of that call returned. The two
  \<^verbatim>\<open>free\<close> calls change nothing the model keeps. The pass returns \<^verbatim>\<open>status\<close> and the
  new surroundings.
\<close>

definition dsh_loop_body :: "shell_env \<Rightarrow> world \<Rightarrow> (abort + (int \<times> world)) option" where
  "dsh_loop_body env w =
     (let w1 = w\<lparr>stdout := stdout w @ ''dhruva > ''\<rparr> in
      case dsh_read_line (alloc_ok env) (allocs w1) (stdin w1) of
        Inl a \<Rightarrow> Some (Inl a)
      | Inr (line, k1, rest) \<Rightarrow>
          (let w2 = w1\<lparr>stdin := rest, allocs := k1\<rparr> in
           case c_string line of
             Inl a \<Rightarrow> Some (Inl a)
           | Inr s \<Rightarrow>
               (case dsh_split_line (alloc_addr env (k1 - 1)) (alloc_ok env) (allocs w2) s of
                  Inl a \<Rightarrow> Some (Inl a)
                | Inr (args, k2) \<Rightarrow> dsh_execute env args (w2\<lparr>allocs := k2\<rparr>))))"

text \<open>The loop itself; \<open>None\<close> is a shell that never leaves it.\<close>

partial_function (option) dsh_loop :: "shell_env \<Rightarrow> world \<Rightarrow> (abort + world) option" where
  "dsh_loop env w =
     (case dsh_loop_body env w of
        None \<Rightarrow> None
      | Some r \<Rightarrow>
          (case r of
             Inl a \<Rightarrow> Some (Inl a)
           | Inr p \<Rightarrow> if fst p \<noteq> 0 then dsh_loop env (snd p) else Some (Inr (snd p))))"


text \<open>\<^verbatim>\<open>main\<close>: run the loop, then return \<^verbatim>\<open>EXIT_SUCCESS\<close>.\<close>

definition main :: "shell_env \<Rightarrow> world \<Rightarrow> (abort + (int \<times> world)) option" where
  "main env w =
     (case dsh_loop env w of
        None \<Rightarrow> None
      | Some r \<Rightarrow>
          (case r of Inl a \<Rightarrow> Some (Inl a) | Inr w' \<Rightarrow> Some (Inr (EXIT_SUCCESS, w'))))"


section \<open>Notions used to state the properties\<close>

text \<open>
  The line that one call of \<^verbatim>\<open>dsh_read_line\<close> is about: the characters of stdin before the
  first newline (all of them when there is none), and what stays unread behind that newline.
\<close>

definition first_line :: "char list \<Rightarrow> char list" where
  "first_line input = takeWhile (\<lambda>c. c \<noteq> newline) input"

definition after_line :: "char list \<Rightarrow> char list" where
  "after_line input = drop 1 (dropWhile (\<lambda>c. c \<noteq> newline) input)"

text \<open>
  The maximal runs of non-delimiter characters of a string, left to right, found by reading the
  string once: \<open>cur\<close> is the run being read; a delimiter closes it when it is not empty.
\<close>

fun runs_from :: "string \<Rightarrow> string \<Rightarrow> string \<Rightarrow> string list" where
  "runs_from delim cur [] = (if cur = [] then [] else [cur])"
| "runs_from delim cur (c # cs) =
     (if c \<in> set delim
      then (if cur = [] then runs_from delim [] cs else cur # runs_from delim [] cs)
      else runs_from delim (cur @ [c]) cs)"

definition maximal_runs :: "string \<Rightarrow> string \<Rightarrow> string list" where
  "maximal_runs delim s = runs_from delim [] s"

text \<open>
  The maximal runs together with the offsets at which they start in the string: \<open>off\<close> is the
  offset of the run being read, or of the next character while no run is open.
\<close>

fun runs_at :: "string \<Rightarrow> nat \<Rightarrow> string \<Rightarrow> string \<Rightarrow> (nat \<times> string) list" where
  "runs_at delim off cur [] = (if cur = [] then [] else [(off, cur)])"
| "runs_at delim off cur (c # cs) =
     (if c \<in> set delim
      then (if cur = [] then runs_at delim (Suc off) [] cs
            else (off, cur) # runs_at delim (Suc (off + length cur)) [] cs)
      else runs_at delim off (cur @ [c]) cs)"

text \<open>
  The pointer values that \<^verbatim>\<open>dsh_split_line\<close> puts into the token array for a line at
  address \<open>base\<close>: one for each maximal run, as the caller of the undeclared
  \<^verbatim>\<open>strtok\<close> receives it, up to the first that it receives as the null pointer.
\<close>

definition stored_tokens :: "nat \<Rightarrow> string \<Rightarrow> tokptr list" where
  "stored_tokens base line =
     takeWhile (\<lambda>p. p \<noteq> NULL)
       (map (\<lambda>tok. implicit_result base (Some tok)) (runs_at DSH_TOK_DELIM 0 [] line))"

text \<open>Joining tokens with single spaces.\<close>

fun join_spaces :: "string list \<Rightarrow> string" where
  "join_spaces [] = []"
| "join_spaces [t] = t"
| "join_spaces (t # u # ts) = t @ CHR 0x20 # join_spaces (u # ts)"

text \<open>No two neighbouring characters of the string are both delimiters.\<close>

fun no_double_delims :: "string \<Rightarrow> string \<Rightarrow> bool" where
  "no_double_delims delim [] = True"
| "no_double_delims delim [a] = True"
| "no_double_delims delim (a # b # r) =
     (\<not> (a \<in> set delim \<and> b \<in> set delim) \<and> no_double_delims delim (b # r))"

text \<open>
  The state of a growable buffer at the head of its loop: the capacity variable agrees with the
  block, the position is inside the block and less than one increment below the capacity.
\<close>

definition dyn_inv :: "int \<Rightarrow> 'a dynbuf \<Rightarrow> bool" where
  "dyn_inv inc b \<longleftrightarrow>
     int (length (cells b)) = bufsize b \<and> 0 \<le> position b \<and> position b < bufsize b \<and>
     bufsize b \<le> position b + inc \<and> bufsize b \<le> INT_MAX"

text \<open>The loop body, repeated for a list of elements.\<close>

fun push_all :: "int \<Rightarrow> (nat \<Rightarrow> bool) \<Rightarrow> nat \<Rightarrow> 'a dynbuf \<Rightarrow> 'a list \<Rightarrow> abort + (nat \<times> 'a dynbuf)" where
  "push_all inc ok k b [] = Inr (k, b)"
| "push_all inc ok k b (v # vs) =
     (case push inc ok k b v of Inl a \<Rightarrow> Inl a | Inr (k', b') \<Rightarrow> push_all inc ok k' b' vs)"

text \<open>A status after which the child runs no more.\<close>

definition terminal :: "wstatus \<Rightarrow> bool" where
  "terminal s \<longleftrightarrow> WIFEXITED s \<or> WIFSIGNALED s"

section \<open>Growable buffers: one step and many\<close>

lemma push_cases:
  assumes "dyn_inv inc b"
  shows "push inc ok k b v =
     (if position b + 1 < bufsize b then
        Inr (k, b\<lparr>position := position b + 1, cells := (cells b)[nat (position b) := Some v]\<rparr>)
      else if bufsize b + inc > INT_MAX then Inl SignedOverflow
      else if ok k then
        Inr (Suc k, \<lparr>bufsize = bufsize b + inc, position = position b + 1,
                     cells = (cells b)[nat (position b) := Some v] @ replicate (nat inc) None\<rparr>)
      else Inl allocation_error)"
  using assms
  by (auto simp: dyn_inv_def push_def store_def advance_def grow_by_def realloc_cells_def nat_add_distrib)

lemma take_Suc_update_append:
  "i < length xs \<Longrightarrow> take (Suc i) (xs[i := v] @ ys) = take i xs @ [v]"
  by (simp add: take_Suc_conv_app_nth)

lemma push_Inr:
  assumes "dyn_inv inc b" "0 < inc" "push inc ok k b v = Inr (k', b')"
  shows "dyn_inv inc b' \<and> position b' = position b + 1 \<and>
         take (nat (position b')) (cells b') = take (nat (position b)) (cells b) @ [Some v] \<and>
         bufsize b' - bufsize b = inc * int (k' - k) \<and> k \<le> k' \<and>
         (k' = k \<longleftrightarrow> position b + 1 < bufsize b)"
  using assms
proof -
  have i: "nat (position b) < length (cells b)" "nat (position b + 1) = Suc (nat (position b))"
    using assms(1) by (auto simp: dyn_inv_def)
  have t: "take (Suc (nat (position b))) ((cells b)[nat (position b) := Some v] @ ys)
      = take (nat (position b)) (cells b) @ [Some v]" for ys
    using i(1) by (rule take_Suc_update_append)
  show ?thesis
  proof (cases "position b + 1 < bufsize b")
    case True
    then have "k' = k" "b' = b\<lparr>position := position b + 1, cells := (cells b)[nat (position b) := Some v]\<rparr>"
      using assms by (auto simp: push_cases)
    then show ?thesis using True assms(1,2) i t[of "[]"]
      by (simp add: dyn_inv_def)
  next
    case False
    then have "k' = Suc k" "b' = \<lparr>bufsize = bufsize b + inc, position = position b + 1,
                     cells = (cells b)[nat (position b) := Some v] @ replicate (nat inc) None\<rparr>"
       and "bufsize b + inc \<le> INT_MAX"
      using assms by (auto simp: push_cases split: if_splits)
    then show ?thesis using False assms(1,2) i t[of "replicate (nat inc) None"]
      by (simp add: dyn_inv_def)
  qed
qed


lemma push_Inl:
  assumes "dyn_inv inc b" "push inc ok k b v = Inl a"
  shows "a = SignedOverflow \<and> INT_MAX < bufsize b + inc \<and> position b + 1 = bufsize b \<or>
         a = allocation_error \<and> \<not> ok k \<and> position b + 1 = bufsize b \<and> bufsize b + inc \<le> INT_MAX"
  using assms by (auto simp: push_cases dyn_inv_def split: if_splits)

lemma push_all_Inr:
  assumes "dyn_inv inc b" "0 < inc" "push_all inc ok k b vs = Inr (k', b')"
  shows "dyn_inv inc b' \<and> position b' = position b + int (length vs) \<and>
         take (nat (position b')) (cells b') = take (nat (position b)) (cells b) @ map Some vs \<and>
         bufsize b' - bufsize b = inc * int (k' - k) \<and> k \<le> k'"
  using assms
proof (induction vs arbitrary: k b)
  case Nil
  then show ?case by simp
next
  case (Cons v vs)
  from Cons.prems(3) obtain k1 b1 where p: "push inc ok k b v = Inr (k1, b1)"
    and r: "push_all inc ok k1 b1 vs = Inr (k', b')"
    by (auto split: sum.splits)
  from push_Inr[OF Cons.prems(1,2) p]
  have s1: "dyn_inv inc b1" and s2: "position b1 = position b + 1"
    and s3: "take (nat (position b1)) (cells b1) = take (nat (position b)) (cells b) @ [Some v]"
    and s4: "bufsize b1 - bufsize b = inc * int (k1 - k)" and s5: "k \<le> k1"
    by blast+
  from Cons.IH[OF s1 Cons.prems(2) r]
  have t1: "dyn_inv inc b'" and t2: "position b' = position b1 + int (length vs)"
    and t3: "take (nat (position b')) (cells b') = take (nat (position b1)) (cells b1) @ map Some vs"
    and t4: "bufsize b' - bufsize b1 = inc * int (k' - k1)" and t5: "k1 \<le> k'"
    by blast+
  have "bufsize b' - bufsize b = inc * int (k1 - k) + inc * int (k' - k1)"
    using s4 t4 by linarith
  also have "\<dots> = inc * int (k' - k)"
    using s5 t5 by (simp add: distrib_left[symmetric])
  finally have u4: "bufsize b' - bufsize b = inc * int (k' - k)" .
  show ?case
    using t1 t2 s2 t3 s3 u4 s5 t5 by simp
qed

lemma push_all_Inl:
  assumes "dyn_inv inc b" "0 < inc" "push_all inc ok k b vs = Inl a"
  shows "a = SignedOverflow \<or> a = allocation_error"
  using assms
proof (induction vs arbitrary: k b)
  case Nil
  then show ?case by simp
next
  case (Cons v vs)
  show ?case
  proof (cases "push inc ok k b v")
    case (Inl a')
    with Cons.prems have "a' = a" by simp
    with push_Inl[OF Cons.prems(1)] Inl show ?thesis by blast
  next
    case (Inr p)
    obtain k1 b1 where "p = (k1, b1)" by (cases p)
    with Inr Cons.prems have r: "push_all inc ok k1 b1 vs = Inl a"
      and p: "push inc ok k b v = Inr (k1, b1)" by simp_all
    from push_Inr[OF Cons.prems(1,2) p] Cons.IH[OF _ Cons.prems(2) r] show ?thesis by blast
  qed
qed

lemma push_all_total:
  assumes "dyn_inv inc b" "0 < inc" "position b + int (length vs) + inc \<le> INT_MAX" "\<forall>j. ok j"
  shows "\<exists>k' b'. push_all inc ok k b vs = Inr (k', b')"
  using assms
proof (induction vs arbitrary: k b)
  case Nil
  then show ?case by simp
next
  case (Cons v vs)
  have "bufsize b + inc \<le> INT_MAX \<or> position b + 1 < bufsize b"
    using Cons.prems(1,3) by (auto simp: dyn_inv_def)
  then have "\<exists>k1 b1. push inc ok k b v = Inr (k1, b1)"
    using Cons.prems(4) by (auto simp: push_cases[OF Cons.prems(1)])
  then obtain k1 b1 where p: "push inc ok k b v = Inr (k1, b1)" by blast
  from push_Inr[OF Cons.prems(1,2) p] have i: "dyn_inv inc b1" and q: "position b1 = position b + 1"
    by simp_all
  have "\<exists>k' b'. push_all inc ok k1 b1 vs = Inr (k', b')"
    using Cons.prems(3) q by (intro Cons.IH[OF i Cons.prems(2) _ Cons.prems(4)]) simp
  with p show ?case by simp
qed

lemma push_all_abort:
  assumes "dyn_inv inc b" "0 < inc" "\<forall>i<j. ok (k + i)"
    and "bufsize b + inc * int j \<le> INT_MAX"
    and "bufsize b - position b + inc * int j \<le> int (length vs)"
    and "INT_MAX < bufsize b + inc * (int j + 1) \<or> \<not> ok (k + j)"
  shows "push_all inc ok k b vs =
           Inl (if INT_MAX < bufsize b + inc * (int j + 1) then SignedOverflow else allocation_error)"
  using assms
proof (induction vs arbitrary: k b j)
  case Nil
  have "0 \<le> inc * int j" using Nil.prems(2) by simp
  moreover have "position b < bufsize b" using Nil.prems(1) by (simp add: dyn_inv_def)
  ultimately have False using Nil.prems(5) by simp
  then show ?case ..
next
  case (Cons v vs)
  note inv = Cons.prems(1)
  show ?case
  proof (cases "position b + 1 < bufsize b")
    case True
    define b1 where "b1 = b\<lparr>position := position b + 1, cells := (cells b)[nat (position b) := Some v]\<rparr>"
    have p: "push inc ok k b v = Inr (k, b1)"
      using True by (simp add: push_cases[OF inv] b1_def)
    have i1: "dyn_inv inc b1" using push_Inr[OF inv Cons.prems(2) p] by blast
    have b1: "bufsize b1 = bufsize b" "position b1 = position b + 1" by (simp_all add: b1_def)
    have h4: "bufsize b1 + inc * int j \<le> INT_MAX" using Cons.prems(4) b1 by simp
    have h5: "bufsize b1 - position b1 + inc * int j \<le> int (length vs)"
      using Cons.prems(5) b1 by simp
    have h6: "INT_MAX < bufsize b1 + inc * (int j + 1) \<or> \<not> ok (k + j)"
      using Cons.prems(6) b1 by simp
    have "push_all inc ok k b1 vs =
           Inl (if INT_MAX < bufsize b1 + inc * (int j + 1) then SignedOverflow else allocation_error)"
      by (rule Cons.IH[OF i1 Cons.prems(2,3) h4 h5 h6])
    then show ?thesis using p b1 by simp
  next
    case False
    then have eq: "position b + 1 = bufsize b" using inv by (simp add: dyn_inv_def)
    show ?thesis
    proof (cases j)
      case 0
      then show ?thesis using Cons.prems(6) False
        by (auto simp: push_cases[OF inv])
    next
      case (Suc j')
      define b1 where "b1 = \<lparr>bufsize = bufsize b + inc, position = position b + 1,
                     cells = (cells b)[nat (position b) := Some v] @ replicate (nat inc) None\<rparr>"
      have b1: "bufsize b1 = bufsize b + inc" "position b1 = position b + 1" by (simp_all add: b1_def)
      have j: "inc * int j = inc + inc * int j'" "inc * (int j + 1) = inc + inc * (int j' + 1)"
        using Suc by (simp_all add: algebra_simps)
      have nn: "0 \<le> inc * int j'" using Cons.prems(2) by simp
      have le: "bufsize b + inc \<le> INT_MAX"
        using Cons.prems(4) j(1) nn by linarith
      have "ok (k + 0)" using Cons.prems(3) Suc by blast
      then have "ok k" by simp
      then have p: "push inc ok k b v = Inr (Suc k, b1)"
        using False le by (simp add: push_cases[OF inv] b1_def)
      have i1: "dyn_inv inc b1" using push_Inr[OF inv Cons.prems(2) p] by blast
      have a: "\<forall>i<j'. ok (Suc k + i)"
      proof (intro allI impI)
        fix i assume "i < j'"
        then have "Suc i < j" using Suc by simp
        then have "ok (k + Suc i)" using Cons.prems(3) by blast
        then show "ok (Suc k + i)" by simp
      qed
      have h4: "bufsize b1 + inc * int j' \<le> INT_MAX" using Cons.prems(4) b1 j(1) by linarith
      have h5: "bufsize b1 - position b1 + inc * int j' \<le> int (length vs)"
        using Cons.prems(5) b1 j(1) by simp
      have kj: "Suc k + j' = k + j" using Suc by simp
      have h6: "INT_MAX < bufsize b1 + inc * (int j' + 1) \<or> \<not> ok (Suc k + j')"
        using Cons.prems(6) b1 j(2) unfolding kj by linarith
      have "push_all inc ok (Suc k) b1 vs =
           Inl (if INT_MAX < bufsize b1 + inc * (int j' + 1) then SignedOverflow else allocation_error)"
        by (rule Cons.IH[OF i1 Cons.prems(2) a h4 h5 h6])
      moreover have "(INT_MAX < bufsize b1 + inc * (int j' + 1)) = (INT_MAX < bufsize b + inc * (int j + 1))"
        using b1 j(2) by linarith
      ultimately show ?thesis using p by simp
    qed
  qed
qed



lemma dyn_inv_multiple:
  assumes "dyn_inv inc b" "0 < inc" "bufsize b = inc * m"
  shows "m = position b div inc + 1"
proof -
  define r where "r = position b - inc * (m - 1)"
  have "position b < inc * m" "inc * m \<le> position b + inc"
    using assms by (simp_all add: dyn_inv_def)
  then have r: "0 \<le> r" "r < inc" by (simp_all add: r_def algebra_simps)
  have "position b = inc * (m - 1) + r" by (simp add: r_def)
  then have "position b div inc = m - 1" using r by (rule int_div_pos_eq)
  then show ?thesis by simp
qed

lemma push_all_fresh_Inr:
  assumes "0 < inc" "dyn_inv inc b0" "bufsize b0 = inc" "position b0 = 0"
    and "push_all inc ok k b0 vs = Inr (k', b)"
  shows "dyn_inv inc b \<and> bufsize b = inc * (int (length vs) div inc + 1) \<and>
         position b = int (length vs) \<and> take (length vs) (cells b) = map Some vs \<and>
         k' = k + nat (int (length vs) div inc)"
proof -
  from push_all_Inr[OF assms(2,1,5)]
  have i: "dyn_inv inc b" and q0: "position b = position b0 + int (length vs)"
    and t0: "take (nat (position b)) (cells b) = take (nat (position b0)) (cells b0) @ map Some vs"
    and g0: "bufsize b - bufsize b0 = inc * int (k' - k)" and kk: "k \<le> k'"
    by blast+
  have q: "position b = int (length vs)" using q0 assms(4) by simp
  have t: "take (length vs) (cells b) = map Some vs"
    using t0 unfolding q assms(4) by simp
  have "bufsize b = inc * (int (k' - k) + 1)"
    using g0 assms(3) by (simp add: algebra_simps)
  from dyn_inv_multiple[OF i assms(1) this] have d: "int (k' - k) = int (length vs) div inc"
    using q by simp
  then have "k' - k = nat (int (length vs) div inc)" by linarith
  then have k': "k' = k + nat (int (length vs) div inc)" using kk by linarith
  have "bufsize b = inc * (int (length vs) div inc + 1)"
    using g0 assms(3) d by (simp add: algebra_simps)
  then show ?thesis using i q t k' by blast
qed

lemma push_all_fresh:
  assumes "\<forall>j. ok j" "0 < inc" "int (length vs) + inc \<le> INT_MAX"
    and "dyn_inv inc b0" "bufsize b0 = inc" "position b0 = 0"
  shows "\<exists>b. push_all inc ok k b0 vs = Inr (k + nat (int (length vs) div inc), b) \<and>
             dyn_inv inc b \<and> bufsize b = inc * (int (length vs) div inc + 1) \<and>
             position b = int (length vs) \<and> take (length vs) (cells b) = map Some vs"
proof -
  have "position b0 + int (length vs) + inc \<le> INT_MAX" using assms(3,6) by simp
  from push_all_total[OF assms(4,2) this assms(1)]
  obtain k' b where p: "push_all inc ok k b0 vs = Inr (k', b)" by blast
  from push_all_fresh_Inr[OF assms(2,4,5,6) p] p show ?thesis by blast
qed

lemma store_facts:
  assumes "dyn_inv inc b"
  shows "\<exists>b'. store b v = Inr b' \<and> bufsize b' = bufsize b \<and> position b' = position b \<and>
           length (cells b') = length (cells b) \<and>
           take (nat (position b)) (cells b') = take (nat (position b)) (cells b) \<and>
           cells b' ! nat (position b) = Some v"
  using assms by (auto simp: store_def dyn_inv_def)

section \<open>Properties of the line reader\<close>

lemma rl_loop_eq:
  "rl_loop ok k b input =
     (case push_all DSH_RL_BUFSIZE ok k b (first_line input) of
        Inl a \<Rightarrow> Inl a
      | Inr (k', b') \<Rightarrow>
          (case store b' NUL of Inl a \<Rightarrow> Inl a | Inr b'' \<Rightarrow> Inr (b'', k', after_line input)))"
proof (induction input arbitrary: k b)
  case Nil
  show ?case by (simp add: first_line_def after_line_def split: sum.splits)
next
  case (Cons c cs)
  show ?case
  proof (cases "c = newline")
    case True
    then show ?thesis by (simp add: first_line_def after_line_def split: sum.splits)
  next
    case False
    have fl: "first_line (c # cs) = c # first_line cs" "after_line (c # cs) = after_line cs"
      using False by (simp_all add: first_line_def after_line_def)
    show ?thesis
      using False by (simp add: fl Cons.IH split: sum.splits prod.splits)
  qed
qed

lemma rl_initial_inv: "dyn_inv DSH_RL_BUFSIZE rl_initial"
  by (simp add: dyn_inv_def rl_initial_def DSH_RL_BUFSIZE_def malloc_cells_def INT_MAX_def)

lemma rl_loop_Inr:
  assumes "rl_loop ok k rl_initial input = Inr (b, k', rest)"
  shows "bufsize b = 1024 * (int (length (first_line input)) div 1024 + 1) \<and>
         position b = int (length (first_line input)) \<and>
         int (length (cells b)) = bufsize b \<and> bufsize b \<le> INT_MAX \<and>
         take (length (first_line input)) (cells b) = map Some (first_line input) \<and>
         cells b ! length (first_line input) = Some NUL \<and>
         k' = k + length (first_line input) div 1024 \<and> rest = after_line input"
proof -
  let ?l = "first_line input"
  have pos: "(0::int) < DSH_RL_BUFSIZE" by (simp add: DSH_RL_BUFSIZE_def)
  from assms obtain k1 b1 where p: "push_all DSH_RL_BUFSIZE ok k rl_initial ?l = Inr (k1, b1)"
    and s: "store b1 NUL = Inr b" and e: "k' = k1" "rest = after_line input"
    by (auto simp: rl_loop_eq split: sum.splits)
  have "bufsize rl_initial = DSH_RL_BUFSIZE" "position rl_initial = 0"
    by (simp_all add: rl_initial_def)
  from push_all_fresh_Inr[OF pos rl_initial_inv this p]
  have i: "dyn_inv DSH_RL_BUFSIZE b1"
    and bs: "bufsize b1 = DSH_RL_BUFSIZE * (int (length ?l) div DSH_RL_BUFSIZE + 1)"
    and q: "position b1 = int (length ?l)" and t: "take (length ?l) (cells b1) = map Some ?l"
    and k1: "k1 = k + nat (int (length ?l) div DSH_RL_BUFSIZE)"
    by blast+
  from store_facts[OF i, of NUL] s
  have f: "bufsize b = bufsize b1" "position b = position b1" "length (cells b) = length (cells b1)"
    "take (nat (position b1)) (cells b) = take (nat (position b1)) (cells b1)"
    "cells b ! nat (position b1) = Some NUL"
    by auto
  have "nat (int (length ?l) div 1024) = length ?l div 1024"
    by (simp add: zdiv_int[symmetric])
  then show ?thesis
    using i bs q t k1 f e by (simp add: DSH_RL_BUFSIZE_def dyn_inv_def)
qed

lemma rl_loop_ok:
  assumes "\<forall>j. ok j" and "int (length (first_line input)) + DSH_RL_BUFSIZE \<le> INT_MAX"
  shows "\<exists>b. rl_loop ok k rl_initial input =
               Inr (b, k + length (first_line input) div 1024, after_line input)"
proof -
  have pos: "(0::int) < DSH_RL_BUFSIZE" by (simp add: DSH_RL_BUFSIZE_def)
  have "bufsize rl_initial = DSH_RL_BUFSIZE" "position rl_initial = 0"
    by (simp_all add: rl_initial_def)
  from push_all_fresh[OF assms(1) pos assms(2) rl_initial_inv this, of k]
  obtain b1 where p: "push_all DSH_RL_BUFSIZE ok k rl_initial (first_line input) =
        Inr (k + nat (int (length (first_line input)) div DSH_RL_BUFSIZE), b1)"
    and i: "dyn_inv DSH_RL_BUFSIZE b1" by blast
  from store_facts[OF i, of NUL] obtain b where s: "store b1 NUL = Inr b" by blast
  have "\<exists>k'. rl_loop ok k rl_initial input = Inr (b, k', after_line input)"
    by (simp add: rl_loop_eq p s)
  then obtain k' where r: "rl_loop ok k rl_initial input = Inr (b, k', after_line input)" ..
  from rl_loop_Inr[OF r] r show ?thesis by blast
qed


section \<open>Properties of the tokenizer\<close>

lemma runs_from_open:
  "cur \<noteq> [] \<Longrightarrow> runs_from d cur s =
     (cur @ takeWhile (\<lambda>c. \<not> is_delim d c) s) #
       runs_from d [] (drop 1 (dropWhile (\<lambda>c. \<not> is_delim d c) s))"
  by (induction s arbitrary: cur) (auto simp: is_delim_def)

lemma runs_from_skip:
  "runs_from d [] s = runs_from d [] (dropWhile (is_delim d) s)"
  by (induction s) (auto simp: is_delim_def)

lemma runs_at_snd: "map snd (runs_at d off cur s) = runs_from d cur s"
  by (induction s arbitrary: off cur) auto

lemma runs_at_length: "length (runs_at d off cur s) = length (runs_from d cur s)"
  using runs_at_snd[of d off cur s] length_map[of snd "runs_at d off cur s"] by simp

lemma runs_at_offsets:
  "(p, t) \<in> set (runs_at d off cur s) \<Longrightarrow> off \<le> p \<and> p \<le> off + length cur + length s"
proof (induction s arbitrary: off cur)
  case Nil
  then show ?case by (auto split: if_splits)
next
  case (Cons c cs)
  show ?case
  proof (cases "c \<in> set d")
    case True
    show ?thesis
    proof (cases "cur = []")
      case e: True
      then have "(p, t) \<in> set (runs_at d (Suc off) [] cs)" using Cons.prems True by simp
      from Cons.IH[OF this] show ?thesis by simp
    next
      case ne: False
      then have "(p, t) = (off, cur) \<or> (p, t) \<in> set (runs_at d (Suc (off + length cur)) [] cs)"
        using Cons.prems True by simp
      then show ?thesis using Cons.IH[of "Suc (off + length cur)" "[]"] by auto
    qed
  next
    case False
    then have "(p, t) \<in> set (runs_at d off (cur @ [c]) cs)" using Cons.prems by simp
    from Cons.IH[OF this] show ?thesis by simp
  qed
qed

lemma runs_at_open:
  "cur \<noteq> [] \<Longrightarrow> runs_at d off cur s =
     (off, cur @ takeWhile (\<lambda>c. \<not> is_delim d c) s) #
       runs_at d (off + length cur + length (takeWhile (\<lambda>c. \<not> is_delim d c) s) +
                  (if dropWhile (\<lambda>c. \<not> is_delim d c) s = [] then 0 else 1)) []
         (drop 1 (dropWhile (\<lambda>c. \<not> is_delim d c) s))"
  by (induction s arbitrary: cur) (auto simp: is_delim_def)

lemma runs_at_skip:
  "runs_at d off [] s =
     runs_at d (off + length (takeWhile (is_delim d) s)) [] (dropWhile (is_delim d) s)"
  by (induction s arbitrary: off) (auto simp: is_delim_def)

lemma runs_at_scan:
  "runs_at d (fst cur) [] (snd cur) =
     (case fst (strtok_scan d cur) of
        None \<Rightarrow> []
      | Some tok \<Rightarrow>
          tok # runs_at d (fst (snd (strtok_scan d cur))) [] (snd (snd (strtok_scan d cur))))"
proof (cases "dropWhile (is_delim d) (snd cur)")
  case Nil
  have "runs_at d (fst cur) [] (snd cur) = []"
    using runs_at_skip[of d "fst cur" "snd cur"] unfolding Nil by simp
  then show ?thesis
    unfolding strtok_scan_def Let_def Nil by simp
next
  case (Cons c r)
  let ?o = "fst cur + length (takeWhile (is_delim d) (snd cur))"
  have nd: "\<not> is_delim d c" using Cons hd_dropWhile[of "is_delim d" "snd cur"] by auto
  then have "runs_at d ?o [] (c # r) = runs_at d ?o [c] r" by (simp add: is_delim_def)
  also have "\<dots> = (?o, [c] @ takeWhile (\<lambda>c. \<not> is_delim d c) r) #
       runs_at d (?o + length [c] + length (takeWhile (\<lambda>c. \<not> is_delim d c) r) +
                  (if dropWhile (\<lambda>c. \<not> is_delim d c) r = [] then 0 else 1)) []
         (drop 1 (dropWhile (\<lambda>c. \<not> is_delim d c) r))"
    by (rule runs_at_open) simp
  finally have op: "runs_at d ?o [] (c # r) =
       (?o, c # takeWhile (\<lambda>c. \<not> is_delim d c) r) #
       runs_at d (?o + Suc (length (takeWhile (\<lambda>c. \<not> is_delim d c) r)) +
                  (if dropWhile (\<lambda>c. \<not> is_delim d c) r = [] then 0 else 1)) []
         (drop 1 (dropWhile (\<lambda>c. \<not> is_delim d c) r))"
    by simp
  have sk: "runs_at d (fst cur) [] (snd cur) = runs_at d ?o [] (c # r)"
    using runs_at_skip[of d "fst cur" "snd cur"] unfolding Cons .
  have sc: "strtok_scan d cur =
      (Some (?o, c # takeWhile (\<lambda>c. \<not> is_delim d c) r),
       (?o + Suc (length (takeWhile (\<lambda>c. \<not> is_delim d c) r)) +
          (if dropWhile (\<lambda>c. \<not> is_delim d c) r = [] then 0 else 1),
        drop 1 (dropWhile (\<lambda>c. \<not> is_delim d c) r)))"
    unfolding strtok_scan_def Let_def Cons using nd by simp
  show ?thesis unfolding sk sc op by simp
qed

lemma implicit_int_low: "p < 2 ^ 31 \<Longrightarrow> implicit_int p = p"
  by (simp add: implicit_int_def)

lemma implicit_result_low:
  "0 < base \<Longrightarrow> base + fst tok < 2 ^ 31 \<Longrightarrow> implicit_result base (Some tok) = Tok (snd tok)"
  by (simp add: implicit_result_def implicit_int_low)

lemma stored_tokens_low:
  assumes "0 < base" "base + length line < 2 ^ 31"
  shows "stored_tokens base line = map Tok (maximal_runs DSH_TOK_DELIM line)"
proof -
  let ?rs = "runs_at DSH_TOK_DELIM 0 [] line"
  have "implicit_result base (Some tok) = Tok (snd tok)" if "tok \<in> set ?rs" for tok
  proof -
    have "(fst tok, snd tok) \<in> set ?rs" using that by simp
    from runs_at_offsets[OF this] have "fst tok \<le> length line" by simp
    then have "base + fst tok < 2 ^ 31" using assms(2) by simp
    with assms(1) show ?thesis by (rule implicit_result_low)
  qed
  then have "map (\<lambda>tok. implicit_result base (Some tok)) ?rs = map (\<lambda>tok. Tok (snd tok)) ?rs"
    by simp
  also have "\<dots> = map Tok (map snd ?rs)" by simp
  also have "\<dots> = map Tok (maximal_runs DSH_TOK_DELIM line)"
    by (simp only: runs_at_snd maximal_runs_def)
  finally have m: "map (\<lambda>tok. implicit_result base (Some tok)) ?rs =
      map Tok (maximal_runs DSH_TOK_DELIM line)" .
  have "takeWhile (\<lambda>p. p \<noteq> NULL) (map Tok ts) = map Tok ts" for ts
    by (induction ts) simp_all
  then show ?thesis unfolding stored_tokens_def m by simp
qed

lemma stored_tokens_length:
  "length (stored_tokens base line) \<le> length (maximal_runs DSH_TOK_DELIM line)"
proof -
  have "length (stored_tokens base line) \<le> length (runs_at DSH_TOK_DELIM 0 [] line)"
    unfolding stored_tokens_def
    using length_takeWhile_le[of "\<lambda>p. p \<noteq> NULL"
        "map (\<lambda>tok. implicit_result base (Some tok)) (runs_at DSH_TOK_DELIM 0 [] line)"]
    by simp
  then show ?thesis by (simp add: runs_at_length maximal_runs_def)
qed

lemma tok_loop_eq:
  "tok_loop base ok k b token saved =
     (case push_all DSH_TOK_BUFSIZE ok k b
             (if token = NULL then []
              else token # takeWhile (\<lambda>p. p \<noteq> NULL)
                     (map (\<lambda>tok. implicit_result base (Some tok))
                        (runs_at DSH_TOK_DELIM (fst saved) [] (snd saved)))) of
        Inl a \<Rightarrow> Inl a
      | Inr (k', b') \<Rightarrow>
          (case store b' NULL of Inl a \<Rightarrow> Inl a | Inr b'' \<Rightarrow> Inr (b'', k')))"
proof (induction base ok k b token saved rule: tok_loop.induct)
  case (1 base ok k b token saved)
  show ?case
  proof (cases "token = NULL")
    case True
    then show ?thesis by (subst tok_loop.simps) (simp split: sum.splits)
  next
    case nn: False
    show ?thesis
    proof (cases "push DSH_TOK_BUFSIZE ok k b token")
      case (Inl a)
      then show ?thesis using nn by (subst tok_loop.simps) simp
    next
      case (Inr p)
      obtain kp bp where p: "p = (kp, bp)" by (cases p)
      let ?sc = "strtok_scan DSH_TOK_DELIM saved"
      have st: "strtok None DSH_TOK_DELIM saved = ?sc"
        by (simp add: strtok_def)
      have nx: "(if implicit_result base (fst ?sc) = NULL then []
                 else implicit_result base (fst ?sc) # takeWhile (\<lambda>p. p \<noteq> NULL)
                     (map (\<lambda>tok. implicit_result base (Some tok))
                        (runs_at DSH_TOK_DELIM (fst (snd ?sc)) [] (snd (snd ?sc))))) =
                takeWhile (\<lambda>p. p \<noteq> NULL)
                     (map (\<lambda>tok. implicit_result base (Some tok))
                        (runs_at DSH_TOK_DELIM (fst saved) [] (snd saved)))"
        by (subst (2) runs_at_scan) (simp add: implicit_result_def split: option.splits)
      have "tok_loop base ok k b token saved =
          tok_loop base ok kp bp (implicit_result base (fst (strtok None DSH_TOK_DELIM saved)))
            (snd (strtok None DSH_TOK_DELIM saved))"
        using Inr p nn by (subst tok_loop.simps) simp
      also note "1.IH"[OF nn Inr p[symmetric]]
      finally show ?thesis
        unfolding st nx using Inr p nn by simp
    qed
  qed
qed

lemma first_stored:
  "(if implicit_result base (fst (strtok_scan DSH_TOK_DELIM (0, line))) = NULL then []
    else implicit_result base (fst (strtok_scan DSH_TOK_DELIM (0, line))) #
         takeWhile (\<lambda>p. p \<noteq> NULL)
           (map (\<lambda>tok. implicit_result base (Some tok))
              (runs_at DSH_TOK_DELIM (fst (snd (strtok_scan DSH_TOK_DELIM (0, line)))) []
                 (snd (snd (strtok_scan DSH_TOK_DELIM (0, line))))))) =
   stored_tokens base line"
  unfolding stored_tokens_def
  using runs_at_scan[of DSH_TOK_DELIM "(0, line)"]
  by (simp add: implicit_result_def split: option.splits)

lemma runs_from_length:
  "length (runs_from d cur s) \<le> length s + (if cur = [] then 0 else 1)"
proof (induction s arbitrary: cur)
  case Nil
  show ?case by simp
next
  case (Cons c cs)
  show ?case
  proof (cases "c \<in> set d")
    case True
    then show ?thesis using Cons[of "[]"] by simp
  next
    case False
    then show ?thesis using Cons[of "cur @ [c]"] by simp
  qed
qed

lemma maximal_runs_length: "length (maximal_runs d s) \<le> length s"
  using runs_from_length[of d "[]" s] by (simp add: maximal_runs_def)

lemma runs_from_half:
  "2 * length (runs_from d cur s) \<le> length s + (if cur = [] then 1 else 2)"
proof (induction s arbitrary: cur)
  case Nil
  show ?case by simp
next
  case (Cons c cs)
  show ?case
  proof (cases "c \<in> set d")
    case True
    then show ?thesis using Cons[of "[]"] by simp
  next
    case False
    then show ?thesis using Cons[of "cur @ [c]"] by auto
  qed
qed

lemma maximal_runs_half: "2 * length (maximal_runs d s) \<le> length s + 1"
  using runs_from_half[of d "[]" s] by (simp add: maximal_runs_def)

lemma argv_of_terminated:
  "argv_of (map (\<lambda>t. Some (Tok t)) ts @ Some NULL # rest) = Inr ts"
  by (induction ts) auto


lemma tok_initial_inv: "dyn_inv DSH_TOK_BUFSIZE tok_initial"
  by (simp add: dyn_inv_def tok_initial_def DSH_TOK_BUFSIZE_def malloc_cells_def INT_MAX_def)

lemma tok_loop_Inr:
  assumes "tok_loop base ok k tok_initial
             (implicit_result base (fst (strtok_scan DSH_TOK_DELIM (0, line))))
             (snd (strtok_scan DSH_TOK_DELIM (0, line))) = Inr (b, k')"
  shows "bufsize b = 64 * (int (length (stored_tokens base line)) div 64 + 1) \<and>
         position b = int (length (stored_tokens base line)) \<and>
         int (length (cells b)) = bufsize b \<and> bufsize b \<le> INT_MAX \<and>
         take (length (stored_tokens base line)) (cells b) = map Some (stored_tokens base line) \<and>
         cells b ! length (stored_tokens base line) = Some NULL \<and>
         k' = k + length (stored_tokens base line) div 64"
proof -
  let ?ts = "stored_tokens base line"
  have pos: "(0::int) < DSH_TOK_BUFSIZE" by (simp add: DSH_TOK_BUFSIZE_def)
  from assms obtain k1 b1 where p: "push_all DSH_TOK_BUFSIZE ok k tok_initial ?ts = Inr (k1, b1)"
    and s: "store b1 NULL = Inr b" and e: "k' = k1"
    unfolding tok_loop_eq first_stored by (auto split: sum.splits)
  have "bufsize tok_initial = DSH_TOK_BUFSIZE" "position tok_initial = 0"
    by (simp_all add: tok_initial_def)
  from push_all_fresh_Inr[OF pos tok_initial_inv this p]
  have i: "dyn_inv DSH_TOK_BUFSIZE b1"
    and bs: "bufsize b1 = DSH_TOK_BUFSIZE * (int (length ?ts) div DSH_TOK_BUFSIZE + 1)"
    and q: "position b1 = int (length ?ts)"
    and t: "take (length ?ts) (cells b1) = map Some ?ts"
    and k1: "k1 = k + nat (int (length ?ts) div DSH_TOK_BUFSIZE)"
    by simp_all
  from store_facts[OF i, of NULL] s
  have f: "bufsize b = bufsize b1" "position b = position b1" "length (cells b) = length (cells b1)"
    "take (nat (position b1)) (cells b) = take (nat (position b1)) (cells b1)"
    "cells b ! nat (position b1) = Some NULL"
    by auto
  have "nat (int (length ?ts) div 64) = length ?ts div 64"
    by (simp add: zdiv_int[symmetric])
  then show ?thesis
    using i bs q t k1 f e by (simp add: DSH_TOK_BUFSIZE_def dyn_inv_def)
qed

lemma tok_loop_ok:
  assumes "\<forall>j. ok j" and "int (length (stored_tokens base line)) + DSH_TOK_BUFSIZE \<le> INT_MAX"
  shows "\<exists>b. tok_loop base ok k tok_initial
                (implicit_result base (fst (strtok_scan DSH_TOK_DELIM (0, line))))
                (snd (strtok_scan DSH_TOK_DELIM (0, line))) =
             Inr (b, k + length (stored_tokens base line) div 64)"
proof -
  let ?ts = "stored_tokens base line"
  have pos: "(0::int) < DSH_TOK_BUFSIZE" by (simp add: DSH_TOK_BUFSIZE_def)
  have "bufsize tok_initial = DSH_TOK_BUFSIZE" "position tok_initial = 0"
    by (simp_all add: tok_initial_def)
  from push_all_fresh[OF assms(1) pos assms(2) tok_initial_inv this, of k]
  obtain b1 k1 where p: "push_all DSH_TOK_BUFSIZE ok k tok_initial ?ts = Inr (k1, b1)"
    and i: "dyn_inv DSH_TOK_BUFSIZE b1" by blast
  from store_facts[OF i, of NULL] obtain b where s: "store b1 NULL = Inr b" by blast
  have "\<exists>k'. tok_loop base ok k tok_initial
                (implicit_result base (fst (strtok_scan DSH_TOK_DELIM (0, line))))
                (snd (strtok_scan DSH_TOK_DELIM (0, line))) = Inr (b, k')"
    unfolding tok_loop_eq first_stored by (simp add: p s)
  then obtain k' where r: "tok_loop base ok k tok_initial
                (implicit_result base (fst (strtok_scan DSH_TOK_DELIM (0, line))))
                (snd (strtok_scan DSH_TOK_DELIM (0, line))) = Inr (b, k')" ..
  from tok_loop_Inr[OF r] r show ?thesis by blast
qed

lemma argv_of_wild:
  "argv_of (map (\<lambda>t. Some (Tok t)) ts @ Some (Wild p) # rest) = Inl WildPointer"
  by (induction ts) auto

lemma runs_from_tokens:
  assumes "set cur \<inter> set d = {}" "t \<in> set (runs_from d cur s)"
  shows "t \<noteq> [] \<and> set t \<inter> set d = {}"
  using assms
proof (induction s arbitrary: cur)
  case Nil
  then show ?case by (auto split: if_splits)
next
  case (Cons c cs)
  show ?case
  proof (cases "c \<in> set d")
    case True
    then have "t = cur \<and> cur \<noteq> [] \<or> t \<in> set (runs_from d [] cs)"
      using Cons.prems(2) by (auto split: if_splits)
    then show ?thesis using Cons.IH[of "[]"] Cons.prems(1) by auto
  next
    case False
    then have "t \<in> set (runs_from d (cur @ [c]) cs)" using Cons.prems(2) by simp
    moreover have "set (cur @ [c]) \<inter> set d = {}" using False Cons.prems(1) by simp
    ultimately show ?thesis by (rule Cons.IH[rotated])
  qed
qed

lemma maximal_runs_tokens:
  "t \<in> set (maximal_runs d s) \<Longrightarrow> t \<noteq> [] \<and> set t \<inter> set d = {}"
  unfolding maximal_runs_def by (rule runs_from_tokens[of "[]"]) simp_all

lemma runs_from_concat:
  "concat (runs_from d cur s) = cur @ filter (\<lambda>c. c \<notin> set d) s"
  by (induction s arbitrary: cur) auto

lemma maximal_runs_concat:
  "concat (maximal_runs d s) = filter (\<lambda>c. c \<notin> set d) s"
  by (simp add: maximal_runs_def runs_from_concat)

lemma maximal_runs_empty_iff:
  "maximal_runs d s = [] \<longleftrightarrow> set s \<subseteq> set d"
proof
  assume "maximal_runs d s = []"
  then have "filter (\<lambda>c. c \<notin> set d) s = []" using maximal_runs_concat[of d s] by simp
  then show "set s \<subseteq> set d" by (auto simp: filter_empty_conv)
next
  assume "set s \<subseteq> set d"
  then show "maximal_runs d s = []"
    unfolding maximal_runs_def by (induction s) auto
qed

lemma maximal_runs_lead:
  "set lead \<subseteq> set d \<Longrightarrow> maximal_runs d (lead @ s) = maximal_runs d s"
  unfolding maximal_runs_def by (induction lead) auto

lemma runs_from_token:
  assumes "set t \<inter> set d = {}" "r = [] \<or> hd r \<in> set d" "cur @ t \<noteq> []"
  shows "runs_from d cur (t @ r) = (cur @ t) # runs_from d [] r"
  using assms
proof (induction t arbitrary: cur)
  case Nil
  then show ?case by (cases r) auto
next
  case (Cons c t)
  have "runs_from d cur ((c # t) @ r) = runs_from d (cur @ [c]) (t @ r)"
    using Cons.prems(1) by simp
  also have "\<dots> = ((cur @ [c]) @ t) # runs_from d [] r"
    using Cons.prems by (intro Cons.IH) auto
  finally show ?case by simp
qed

lemma maximal_runs_token:
  "t \<noteq> [] \<Longrightarrow> set t \<inter> set d = {} \<Longrightarrow> r = [] \<or> hd r \<in> set d \<Longrightarrow>
   maximal_runs d (t @ r) = t # maximal_runs d r"
  unfolding maximal_runs_def using runs_from_token[of t d r "[]"] by simp

lemma maximal_runs_join:
  assumes "CHR 0x20 \<in> set d" "\<forall>t\<in>set ts. t \<noteq> [] \<and> set t \<inter> set d = {}"
  shows "maximal_runs d (join_spaces ts) = ts"
  using assms(2)
proof (induction ts rule: join_spaces.induct)
  case 1
  show ?case by (simp add: maximal_runs_def)
next
  case (2 t)
  then show ?case using maximal_runs_token[of t d "[]"] by (simp add: maximal_runs_def)
next
  case (3 t u ts)
  have "maximal_runs d (t @ CHR 0x20 # join_spaces (u # ts)) =
        t # maximal_runs d (CHR 0x20 # join_spaces (u # ts))"
    using 3(2) assms(1) by (intro maximal_runs_token) auto
  also have "maximal_runs d (CHR 0x20 # join_spaces (u # ts)) = maximal_runs d (join_spaces (u # ts))"
    using maximal_runs_lead[of "[CHR 0x20]" d] assms(1) by simp
  also have "\<dots> = u # ts" using 3 by simp
  finally show ?case by simp
qed

lemma delimiter_free_ends:
  "t \<noteq> [] \<Longrightarrow> set t \<inter> set d = {} \<Longrightarrow> hd t \<notin> set d \<and> last t \<notin> set d"
  by (meson disjoint_iff hd_in_set last_in_set)

lemma join_spaces_ends:
  assumes "\<forall>t\<in>set ts. t \<noteq> [] \<and> set t \<inter> set d = {}" "ts \<noteq> []"
  shows "join_spaces ts \<noteq> [] \<and> hd (join_spaces ts) \<notin> set d \<and> last (join_spaces ts) \<notin> set d"
  using assms
proof (induction ts rule: join_spaces.induct)
  case 1
  then show ?case by simp
next
  case (2 t)
  then have "t \<noteq> []" "set t \<inter> set d = {}" by simp_all
  then show ?case using delimiter_free_ends[of t d] by simp
next
  case (3 t u ts)
  then have t: "t \<noteq> []" "set t \<inter> set d = {}" by simp_all
  then have "hd t \<notin> set d" using delimiter_free_ends[of t d] by simp
  moreover have "join_spaces (u # ts) \<noteq> [] \<and> last (join_spaces (u # ts)) \<notin> set d"
    using 3 by simp
  ultimately show ?case using t by simp
qed

lemma no_double_delims_append:
  assumes "no_double_delims d xs" "no_double_delims d ys"
    and "xs \<noteq> [] \<Longrightarrow> ys \<noteq> [] \<Longrightarrow> \<not> (last xs \<in> set d \<and> hd ys \<in> set d)"
  shows "no_double_delims d (xs @ ys)"
  using assms
proof (induction d xs rule: no_double_delims.induct)
  case (1 delim)
  then show ?case by simp
next
  case (2 delim a)
  then show ?case by (cases ys) auto
next
  case (3 delim a b r)
  then show ?case by simp
qed

lemma no_double_delims_free:
  "set t \<inter> set d = {} \<Longrightarrow> no_double_delims d t"
  by (induction d t rule: no_double_delims.induct) auto

lemma join_spaces_no_double:
  assumes "\<forall>t\<in>set ts. t \<noteq> [] \<and> set t \<inter> set d = {}"
  shows "no_double_delims d (join_spaces ts)"
  using assms
proof (induction ts rule: join_spaces.induct)
  case 1
  show ?case by simp
next
  case (2 t)
  then show ?case by (simp add: no_double_delims_free)
next
  case (3 t u ts)
  then have t: "t \<noteq> []" "set t \<inter> set d = {}" by simp_all
  have e: "join_spaces (u # ts) \<noteq> [] \<and> hd (join_spaces (u # ts)) \<notin> set d"
    using join_spaces_ends[of "u # ts" d] 3(2) by simp
  have r: "no_double_delims d (join_spaces (u # ts))" using 3 by simp
  have s: "no_double_delims d (CHR 0x20 # join_spaces (u # ts))"
    using e r by (cases "join_spaces (u # ts)") auto
  have "last t \<notin> set d" using t delimiter_free_ends[of t d] by simp
  then have "no_double_delims d (t @ CHR 0x20 # join_spaces (u # ts))"
    using no_double_delims_free[OF t(2)] s by (intro no_double_delims_append) auto
  then show ?case by simp
qed

lemma dsh_split_line_result:
  assumes "\<forall>j. ok j" and "int (length (stored_tokens base line)) + DSH_TOK_BUFSIZE \<le> INT_MAX"
  shows "\<exists>arr. dsh_split_line base ok k line =
                 Inr (arr, Suc k + length (stored_tokens base line) div 64) \<and>
               take (length (stored_tokens base line)) arr = map Some (stored_tokens base line) \<and>
               length (stored_tokens base line) < length arr \<and>
               arr ! length (stored_tokens base line) = Some NULL"
proof -
  let ?ts = "stored_tokens base line"
  from tok_loop_ok[OF assms, of "Suc k"] obtain b where
    r: "tok_loop base ok (Suc k) tok_initial
          (implicit_result base (fst (strtok_scan DSH_TOK_DELIM (0, line))))
          (snd (strtok_scan DSH_TOK_DELIM (0, line))) = Inr (b, Suc k + length ?ts div 64)"
    by blast
  from tok_loop_Inr[OF r]
  have bs: "bufsize b = 64 * (int (length ?ts) div 64 + 1)"
    and len: "int (length (cells b)) = bufsize b"
    and t: "take (length ?ts) (cells b) = map Some ?ts"
    and z: "cells b ! length ?ts = Some NULL"
    by blast+
  have "int (length ?ts) < 64 * (int (length ?ts) div 64 + 1)"
    using pos_mod_bound[of 64 "int (length ?ts)"]
    by (simp add: algebra_simps minus_mod_eq_mult_div[symmetric])
  then have lt: "length ?ts < length (cells b)" using bs len by linarith
  have "dsh_split_line base ok k line = Inr (cells b, Suc k + length ?ts div 64)"
    using assms(1) r by (simp add: dsh_split_line_def strtok_def)
  then show ?thesis using t lt z by blast
qed

lemma stored_tokens_fit:
  "int (length line) + DSH_TOK_BUFSIZE \<le> INT_MAX \<Longrightarrow>
   int (length (stored_tokens base line)) + DSH_TOK_BUFSIZE \<le> INT_MAX"
  using stored_tokens_length[of base line] maximal_runs_length[of DSH_TOK_DELIM line] by linarith

lemma dsh_split_line_low:
  assumes "\<forall>j. ok j" and "0 < base" and "base + length line < 2 ^ 31"
  shows "\<exists>arr. dsh_split_line base ok k line =
                 Inr (arr, Suc k + length (maximal_runs DSH_TOK_DELIM line) div 64) \<and>
               take (length (maximal_runs DSH_TOK_DELIM line)) arr =
                 map (\<lambda>t. Some (Tok t)) (maximal_runs DSH_TOK_DELIM line) \<and>
               length (maximal_runs DSH_TOK_DELIM line) < length arr \<and>
               arr ! length (maximal_runs DSH_TOK_DELIM line) = Some NULL \<and>
               argv_of arr = Inr (maximal_runs DSH_TOK_DELIM line)"
proof -
  let ?ts = "maximal_runs DSH_TOK_DELIM line"
  have st: "stored_tokens base line = map Tok ?ts" using assms(2,3) by (rule stored_tokens_low)
  have "length line < 2147483648" using assms(3) by simp
  then have "length ?ts \<le> 1073741824" using maximal_runs_half[of DSH_TOK_DELIM line] by linarith
  then have "int (length (stored_tokens base line)) + DSH_TOK_BUFSIZE \<le> INT_MAX"
    unfolding st by (simp add: DSH_TOK_BUFSIZE_def INT_MAX_def)
  from dsh_split_line_result[OF assms(1) this, of k] obtain arr where
    r: "dsh_split_line base ok k line = Inr (arr, Suc k + length ?ts div 64)"
    and t: "take (length ?ts) arr = map (\<lambda>t. Some (Tok t)) ?ts"
    and lt: "length ?ts < length arr" and z: "arr ! length ?ts = Some NULL"
    unfolding st by (auto simp: comp_def)
  have split: "arr = map (\<lambda>t. Some (Tok t)) ?ts @ Some NULL # drop (Suc (length ?ts)) arr"
    using id_take_nth_drop[OF lt] t z by simp
  have av: "argv_of arr = Inr ?ts"
    by (subst split) (rule argv_of_terminated)
  show ?thesis using r t lt z av by blast
qed

lemma join_spaces_runs_from:
  "length (join_spaces (runs_from d cur s)) \<le> length cur + length s"
proof (induction s arbitrary: cur)
  case Nil
  show ?case by simp
next
  case (Cons c cs)
  show ?case
  proof (cases "c \<in> set d")
    case True
    show ?thesis
    proof (cases "cur = []")
      case e: True
      then show ?thesis using True Cons[of "[]"] by simp
    next
      case ne: False
      have jl: "length (join_spaces (cur # ts)) \<le> length cur + 1 + length (join_spaces ts)" for ts
        by (cases ts) simp_all
      have ih: "length (join_spaces (runs_from d [] cs)) \<le> length cs"
        using Cons[of "[]"] by simp
      from jl[of "runs_from d [] cs"] ih
      have "length (join_spaces (cur # runs_from d [] cs)) \<le> length cur + 1 + length cs"
        by linarith
      then show ?thesis using True ne by simp
    qed
  next
    case False
    then show ?thesis using Cons[of "cur @ [c]"] by simp
  qed
qed

lemma join_spaces_length:
  "length (join_spaces (maximal_runs d s)) \<le> length s"
  using join_spaces_runs_from[of d "[]" s] by (simp add: maximal_runs_def)

lemma block_of_64: "replicate 64 x = [x, x, x] @ replicate 61 x"
proof -
  have "replicate (3 + 61) x = replicate 3 x @ replicate 61 x"
    by (rule replicate_add)
  then show ?thesis by (simp add: numeral_3_eq_3)
qed

lemma split_join_split_low:
  assumes "\<forall>j. ok j" and "0 < base" and "base + length line < 2 ^ 31"
    and "0 < base'" and "base' + length line < 2 ^ 31"
  shows "\<exists>arr k1 arr' k2.
           dsh_split_line base ok k line = Inr (arr, k1) \<and>
           argv_of arr = Inr (maximal_runs DSH_TOK_DELIM line) \<and>
           dsh_split_line base' ok k' (join_spaces (maximal_runs DSH_TOK_DELIM line)) = Inr (arr', k2) \<and>
           argv_of arr' = Inr (maximal_runs DSH_TOK_DELIM line) \<and>
           (join_spaces (maximal_runs DSH_TOK_DELIM line) \<noteq> [] \<longrightarrow>
              \<not> is_delim DSH_TOK_DELIM (hd (join_spaces (maximal_runs DSH_TOK_DELIM line))) \<and>
              \<not> is_delim DSH_TOK_DELIM (last (join_spaces (maximal_runs DSH_TOK_DELIM line)))) \<and>
           no_double_delims DSH_TOK_DELIM (join_spaces (maximal_runs DSH_TOK_DELIM line))"
proof -
  let ?ts = "maximal_runs DSH_TOK_DELIM line"
  have sp: "CHR 0x20 \<in> set DSH_TOK_DELIM" by (simp add: DSH_TOK_DELIM_def)
  have tk: "\<forall>t\<in>set ?ts. t \<noteq> [] \<and> set t \<inter> set DSH_TOK_DELIM = {}"
    using maximal_runs_tokens[of _ DSH_TOK_DELIM line] by blast
  have again: "maximal_runs DSH_TOK_DELIM (join_spaces ?ts) = ?ts"
    by (rule maximal_runs_join[OF sp tk])
  from dsh_split_line_low[OF assms(1,2,3), of k] obtain arr where
    r: "dsh_split_line base ok k line = Inr (arr, Suc k + length ?ts div 64)"
    and av: "argv_of arr = Inr ?ts"
    by blast
  have "length (join_spaces ?ts) \<le> length line"
    by (rule join_spaces_length)
  then have "base' + length (join_spaces ?ts) < 2 ^ 31" using assms(5) by simp
  from dsh_split_line_low[OF assms(1,4) this, of k'] obtain arr' where
    r': "dsh_split_line base' ok k' (join_spaces ?ts) = Inr (arr', Suc k' + length ?ts div 64)"
    and av': "argv_of arr' = Inr ?ts"
    unfolding again by blast
  have ends: "join_spaces ?ts \<noteq> [] \<longrightarrow>
              \<not> is_delim DSH_TOK_DELIM (hd (join_spaces ?ts)) \<and>
              \<not> is_delim DSH_TOK_DELIM (last (join_spaces ?ts))"
  proof
    assume "join_spaces ?ts \<noteq> []"
    then have "?ts \<noteq> []" by auto
    from join_spaces_ends[OF tk this]
    show "\<not> is_delim DSH_TOK_DELIM (hd (join_spaces ?ts)) \<and>
          \<not> is_delim DSH_TOK_DELIM (last (join_spaces ?ts))"
      by (simp add: is_delim_def)
  qed
  have nd: "no_double_delims DSH_TOK_DELIM (join_spaces ?ts)"
    by (rule join_spaces_no_double[OF tk])
  show ?thesis using r av r' av' ends nd by blast
qed

section \<open>Failing allocations and stores\<close>

lemma first_failure_cases:
  assumes "\<forall>i<j. ok (k + i)" "\<not> ok (k + j)"
  shows "j = 0 \<and> \<not> ok k \<or> (\<exists>j'. j = Suc j' \<and> ok k \<and> (\<forall>i<j'. ok (Suc k + i)) \<and> \<not> ok (Suc k + j'))"
proof (cases j)
  case 0
  then show ?thesis using assms(2) by simp
next
  case (Suc j')
  have "ok (k + 0)" using assms(1) Suc by blast
  moreover have "\<forall>i<j'. ok (Suc k + i)"
  proof (intro allI impI)
    fix i assume "i < j'"
    then have "Suc i < j" using Suc by simp
    then have "ok (k + Suc i)" using assms(1) by blast
    then show "ok (Suc k + i)" by simp
  qed
  moreover have "\<not> ok (Suc k + j')" using assms(2) Suc by simp
  ultimately show ?thesis using Suc by simp
qed

lemma rl_loop_abort:
  assumes "\<forall>i<j. ok (k + i)" "\<not> ok (k + j)"
    and "1024 * (int j + 1) \<le> int (length (first_line input))"
    and "1024 * (int j + 2) \<le> INT_MAX"
  shows "rl_loop ok k rl_initial input = Inl allocation_error"
proof -
  have pos: "(0::int) < DSH_RL_BUFSIZE" by (simp add: DSH_RL_BUFSIZE_def)
  have "push_all DSH_RL_BUFSIZE ok k rl_initial (first_line input) =
      Inl (if INT_MAX < bufsize rl_initial + DSH_RL_BUFSIZE * (int j + 1)
           then SignedOverflow else allocation_error)"
    using assms
    by (intro push_all_abort[OF rl_initial_inv pos])
       (simp_all add: rl_initial_def DSH_RL_BUFSIZE_def)
  then show ?thesis using assms(4)
    by (simp add: rl_loop_eq rl_initial_def DSH_RL_BUFSIZE_def)
qed

lemma tok_loop_abort:
  assumes "\<forall>i<j. ok (k + i)" "\<not> ok (k + j)"
    and "64 * (int j + 1) \<le> int (length (stored_tokens base line))"
    and "64 * (int j + 2) \<le> INT_MAX"
  shows "tok_loop base ok k tok_initial
           (implicit_result base (fst (strtok_scan DSH_TOK_DELIM (0, line))))
           (snd (strtok_scan DSH_TOK_DELIM (0, line))) = Inl allocation_error"
proof -
  let ?ts = "stored_tokens base line"
  have pos: "(0::int) < DSH_TOK_BUFSIZE" by (simp add: DSH_TOK_BUFSIZE_def)
  have "push_all DSH_TOK_BUFSIZE ok k tok_initial ?ts =
      Inl (if INT_MAX < bufsize tok_initial + DSH_TOK_BUFSIZE * (int j + 1)
           then SignedOverflow else allocation_error)"
    using assms
    by (intro push_all_abort[OF tok_initial_inv pos])
       (simp_all add: tok_initial_def DSH_TOK_BUFSIZE_def)
  then show ?thesis using assms(4)
    unfolding tok_loop_eq first_stored by (simp add: tok_initial_def DSH_TOK_BUFSIZE_def)
qed

lemma allocation_error_neq [simp]:
  "allocation_error \<noteq> OutOfBounds" "OutOfBounds \<noteq> allocation_error"
  by (simp_all add: allocation_error_def)

lemma push_all_store_aborts:
  assumes "dyn_inv inc b" "0 < inc"
    and "(case push_all inc ok k b vs of
            Inl a \<Rightarrow> Inl a
          | Inr (k', b') \<Rightarrow> (case store b' v of Inl a \<Rightarrow> Inl a | Inr b'' \<Rightarrow> Inr (f b'' k')))
         = Inl a"
  shows "a = SignedOverflow \<or> a = allocation_error"
proof (cases "push_all inc ok k b vs")
  case (Inl a')
  from push_all_Inl[OF assms(1,2) Inl] show ?thesis using Inl assms(3) by auto
next
  case (Inr p)
  obtain k' b' where p: "p = (k', b')" by (cases p)
  from push_all_Inr[OF assms(1,2) Inr[unfolded p]] have "dyn_inv inc b'" by blast
  from store_facts[OF this, of v] obtain b'' where "store b' v = Inr b''" by blast
  then show ?thesis using Inr p assms(3) by simp
qed

lemma rl_loop_aborts:
  "rl_loop ok k rl_initial input = Inl a \<Longrightarrow> a = SignedOverflow \<or> a = allocation_error"
  unfolding rl_loop_eq
  by (rule push_all_store_aborts[OF rl_initial_inv, where f = "\<lambda>b'' k'. (b'', k', after_line input)"])
     (simp_all add: DSH_RL_BUFSIZE_def)

lemma tok_loop_aborts:
  "tok_loop base ok k tok_initial token saved = Inl a \<Longrightarrow> a = SignedOverflow \<or> a = allocation_error"
  unfolding tok_loop_eq
  by (rule push_all_store_aborts[OF tok_initial_inv, where f = "\<lambda>b'' k'. (b'', k')"])
     (simp_all add: DSH_TOK_BUFSIZE_def)

lemma dsh_read_line_aborts:
  "dsh_read_line ok k input = Inl a \<Longrightarrow> a = SignedOverflow \<or> a = allocation_error"
  using rl_loop_aborts[of ok "Suc k" input a]
  by (auto simp: dsh_read_line_def split: if_splits sum.splits)

lemma dsh_split_line_aborts:
  assumes "dsh_split_line base ok k line = Inl a"
  shows "a = SignedOverflow \<or> a = allocation_error"
proof (cases "ok k")
  case False
  then show ?thesis using assms by (simp add: dsh_split_line_def)
next
  case True
  then have "tok_loop base ok (Suc k) tok_initial
               (implicit_result base (fst (strtok (Some (0, line)) DSH_TOK_DELIM (0, []))))
               (snd (strtok (Some (0, line)) DSH_TOK_DELIM (0, []))) = Inl a"
    using assms by (auto simp: dsh_split_line_def split: sum.splits prod.splits)
  then show ?thesis by (rule tok_loop_aborts)
qed

section \<open>What the two functions return\<close>

lemma c_string_prefix:
  "c_string (map Some l @ Some NUL # r) = Inr (takeWhile (\<lambda>c. c \<noteq> NUL) l)"
  by (induction l) auto

lemma dsh_read_line_result:
  assumes "\<forall>j. ok j" and "int (length (first_line input)) + DSH_RL_BUFSIZE \<le> INT_MAX"
  shows "\<exists>buf. dsh_read_line ok k input =
                 Inr (buf, Suc k + length (first_line input) div 1024, after_line input) \<and>
               take (length (first_line input)) buf = map Some (first_line input) \<and>
               length (first_line input) < length buf \<and>
               buf ! length (first_line input) = Some NUL \<and>
               c_string buf = Inr (takeWhile (\<lambda>c. c \<noteq> NUL) (first_line input))"
proof -
  let ?l = "first_line input"
  from rl_loop_ok[OF assms, of "Suc k"] obtain b where
    r: "rl_loop ok (Suc k) rl_initial input = Inr (b, Suc k + length ?l div 1024, after_line input)"
    by blast
  from rl_loop_Inr[OF r]
  have bs: "bufsize b = 1024 * (int (length ?l) div 1024 + 1)"
    and len: "int (length (cells b)) = bufsize b"
    and t: "take (length ?l) (cells b) = map Some ?l"
    and z: "cells b ! length ?l = Some NUL"
    by blast+
  have "int (length ?l) < 1024 * (int (length ?l) div 1024 + 1)"
    using pos_mod_bound[of 1024 "int (length ?l)"]
    by (simp add: algebra_simps minus_mod_eq_mult_div[symmetric])
  then have lt: "length ?l < length (cells b)" using bs len by linarith
  have split: "cells b = map Some ?l @ Some NUL # drop (Suc (length ?l)) (cells b)"
    using id_take_nth_drop[OF lt] t z by simp
  have cs: "c_string (cells b) = Inr (takeWhile (\<lambda>c. c \<noteq> NUL) ?l)"
    by (subst split) (rule c_string_prefix)
  have "dsh_read_line ok k input = Inr (cells b, Suc k + length ?l div 1024, after_line input)"
    using assms(1) r by (simp add: dsh_read_line_def)
  then show ?thesis using t lt z cs by blast
qed

lemma read_line_fits:
  assumes "dsh_read_line ok k input = Inr (buf, k', rest)" "c_string buf = Inr s"
  shows "int (length (stored_tokens base s)) + DSH_TOK_BUFSIZE \<le> INT_MAX"
proof -
  let ?l = "first_line input"
  from assms(1) obtain b where r: "rl_loop ok (Suc k) rl_initial input = Inr (b, k', rest)"
    and c: "buf = cells b"
    by (auto simp: dsh_read_line_def split: if_splits sum.splits)
  from rl_loop_Inr[OF r]
  have bs: "bufsize b = 1024 * (int (length ?l) div 1024 + 1)"
    and len: "int (length (cells b)) = bufsize b" and le: "bufsize b \<le> INT_MAX"
    and t: "take (length ?l) (cells b) = map Some ?l"
    and z: "cells b ! length ?l = Some NUL"
    by blast+
  have n: "int (length ?l) < 1024 * (int (length ?l) div 1024 + 1)"
    using pos_mod_bound[of 1024 "int (length ?l)"]
    by (simp add: algebra_simps minus_mod_eq_mult_div[symmetric])
  then have lt: "length ?l < length (cells b)" using bs len by linarith
  have split: "cells b = map Some ?l @ Some NUL # drop (Suc (length ?l)) (cells b)"
    using id_take_nth_drop[OF lt] t z by simp
  have "c_string (cells b) = Inr (takeWhile (\<lambda>c. c \<noteq> NUL) ?l)"
    by (subst split) (rule c_string_prefix)
  then have s: "s = takeWhile (\<lambda>c. c \<noteq> NUL) ?l" using assms(2) c by simp
  have "length s \<le> length ?l" unfolding s by (rule length_takeWhile_le)
  then have "int (length (stored_tokens base s)) \<le> int (length ?l)"
    using maximal_runs_length[of DSH_TOK_DELIM s] stored_tokens_length[of base s] by linarith
  moreover have "int (length ?l) div 1024 + 1 \<le> 2097151"
    using bs le by (simp add: INT_MAX_def)
  then have "int (length ?l) < 2147482624" using n by linarith
  ultimately show ?thesis by (simp add: DSH_TOK_BUFSIZE_def INT_MAX_def)
qed

section \<open>Properties of the launcher\<close>

lemma wait_loop_terminal:
  "rep i = Reported s \<Longrightarrow> terminal s \<Longrightarrow> wait_loop rep st i = Some (Inr (Suc i))"
  by (subst wait_loop.simps) (auto simp: terminal_def)

lemma wait_loop_nonterminal:
  "rep i = Reported s \<Longrightarrow> \<not> terminal s \<Longrightarrow> wait_loop rep st i = wait_loop rep (Some s) (Suc i)"
  by (subst wait_loop.simps) (auto simp: terminal_def)

lemma wait_loop_first:
  assumes "\<forall>i. m \<le> i \<and> i < n \<longrightarrow> (\<exists>s. rep i = Reported s \<and> \<not> terminal s)"
    and "rep n = Reported t" "terminal t" "m \<le> n"
  shows "wait_loop rep st m = Some (Inr (Suc n))"
  using assms
proof (induction "n - m" arbitrary: m st)
  case 0
  then have "m = n" by simp
  then show ?case using wait_loop_terminal[of rep n t st] "0.prems"(2,3) by simp
next
  case (Suc d)
  then have lt: "m < n" by simp
  then obtain s where s: "rep m = Reported s" "\<not> terminal s" using Suc.prems(1) by blast
  have "wait_loop rep (Some s) (Suc m) = Some (Inr (Suc n))"
    using Suc.hyps(2) Suc.prems lt by (intro Suc.hyps(1)) auto
  then show ?case using wait_loop_nonterminal[of rep m s st] s by simp
qed

lemma wait_loop_never:
  assumes "\<forall>i. m \<le> i \<longrightarrow> (\<exists>s. rep i = Reported s \<and> \<not> terminal s)"
  shows "wait_loop rep st m = None"
proof (rule ccontr)
  assume "wait_loop rep st m \<noteq> None"
  then obtain y where y: "wait_loop rep st m = Some y" by blast
  have "(\<forall>i. m \<le> i \<longrightarrow> (\<exists>s. rep i = Reported s \<and> \<not> terminal s)) \<longrightarrow> False"
    using y
  proof (induction rule: wait_loop.raw_induct[rotated, consumes 1])
    case (1 wl rep st m y)
    show ?case
    proof
      assume a: "\<forall>i. m \<le> i \<longrightarrow> (\<exists>s. rep i = Reported s \<and> \<not> terminal s)"
      then obtain s where s: "rep m = Reported s" "\<not> terminal s" by blast
      then have "wl rep (Some s) (Suc m) = Some y"
        using 1(2) by (auto simp: terminal_def split: if_splits)
      from 1(1)[OF this] a show False by auto
    qed
  qed
  then show False using assms by blast
qed

lemma wait_loop_returns:
  assumes "wait_loop rep st m = Some (Inr n)" "\<forall>s. st = Some s \<longrightarrow> \<not> terminal s"
  shows "m < n \<and> (\<exists>t. rep (n - 1) = Reported t \<and> terminal t) \<and>
         (\<forall>i. m \<le> i \<and> i < n - 1 \<longrightarrow> (\<forall>s. rep i = Reported s \<longrightarrow> \<not> terminal s))"
proof -
  have "(\<forall>s. st = Some s \<longrightarrow> \<not> terminal s) \<longrightarrow> (\<forall>n. y = Inr n \<longrightarrow>
         m < n \<and> (\<exists>t. rep (n - 1) = Reported t \<and> terminal t) \<and>
         (\<forall>i. m \<le> i \<and> i < n - 1 \<longrightarrow> (\<forall>s. rep i = Reported s \<longrightarrow> \<not> terminal s)))"
    if "wait_loop rep st m = Some y" for y
    using that
  proof (induction rule: wait_loop.raw_induct[rotated, consumes 1])
    case (1 wl rep st m y)
    show ?case
    proof (intro impI allI)
      fix n
      assume inv: "\<forall>s. st = Some s \<longrightarrow> \<not> terminal s" and yn: "y = Inr n"
      from 1(2) have nr: "rep m \<noteq> NeverReturns" by (auto split: if_splits)
      from 1(2) nr obtain s where st': "waitpid_status (rep m) st = Some s"
        using yn by (auto split: option.splits)
      show "m < n \<and> (\<exists>t. rep (n - 1) = Reported t \<and> terminal t) \<and>
         (\<forall>i. m \<le> i \<and> i < n - 1 \<longrightarrow> (\<forall>s. rep i = Reported s \<longrightarrow> \<not> terminal s))"
      proof (cases "terminal s")
        case True
        then have n: "n = Suc m" using 1(2) nr st' yn by (auto simp: terminal_def split: if_splits)
        have "rep m = Reported s"
          using st' inv True nr by (cases "rep m") auto
        then show ?thesis using n True by auto
      next
        case False
        then have r: "wl rep (Some s) (Suc m) = Some y"
          using 1(2) nr st' by (auto simp: terminal_def split: if_splits)
        from 1(1)[OF r] False yn
        have ih: "Suc m < n" "\<exists>t. rep (n - 1) = Reported t \<and> terminal t"
          "\<forall>i. Suc m \<le> i \<and> i < n - 1 \<longrightarrow> (\<forall>s. rep i = Reported s \<longrightarrow> \<not> terminal s)"
          by auto
        have m: "\<forall>s'. rep m = Reported s' \<longrightarrow> \<not> terminal s'"
          using st' False by auto
        have "\<forall>i. m \<le> i \<and> i < n - 1 \<longrightarrow> (\<forall>s. rep i = Reported s \<longrightarrow> \<not> terminal s)"
        proof (intro allI impI)
          fix i s' assume i: "m \<le> i \<and> i < n - 1" and r: "rep i = Reported s'"
          show "\<not> terminal s'"
          proof (cases "i = m")
            case True
            then show ?thesis using m r by simp
          next
            case False
            then have "Suc m \<le> i \<and> i < n - 1" using i by simp
            then show ?thesis using ih(3) r by blast
          qed
        qed
        then show ?thesis using ih by auto
      qed
    qed
  qed
  then show ?thesis using assms by blast
qed

lemma dsh_launch_parent:
  "0 < fork_pid e \<Longrightarrow>
   dsh_launch e args w =
     (case wait_loop (wait_reports e) None 0 of
        None \<Rightarrow> None
      | Some (Inl a) \<Rightarrow> Some (Inl a)
      | Some (Inr n) \<Rightarrow> Some (Inr (1, w)))"
  by (simp add: dsh_launch_def)

section \<open>Properties of the dispatcher and of the main loop\<close>

lemma dsh_execute_no_token:
  "arg_at args 0 = Inr NULL \<Longrightarrow> dsh_execute env args w = Some (Inr (1, w))"
  by (simp add: dsh_execute_def)

lemma stored_tokens_blank:
  assumes "set line \<subseteq> set DSH_TOK_DELIM"
  shows "stored_tokens base line = []"
proof -
  have "maximal_runs DSH_TOK_DELIM line = []" using assms by (simp add: maximal_runs_empty_iff)
  then show ?thesis using stored_tokens_length[of base line] by simp
qed

lemma loop_body_blank:
  assumes "\<forall>j. alloc_ok env j" "set (first_line (stdin w)) \<subseteq> set DSH_TOK_DELIM"
    and "int (length (first_line (stdin w))) + DSH_RL_BUFSIZE \<le> INT_MAX"
  shows "dsh_loop_body env w =
           Some (Inr (1, w\<lparr>stdin := after_line (stdin w),
                           stdout := stdout w @ ''dhruva > '',
                           allocs := allocs w + 2 + length (first_line (stdin w)) div 1024\<rparr>))"
proof -
  let ?l = "first_line (stdin w)"
  let ?k1 = "Suc (allocs w) + length ?l div 1024"
  from dsh_read_line_result[OF assms(1,3), of "allocs w"] obtain buf where
    r: "dsh_read_line (alloc_ok env) (allocs w) (stdin w) = Inr (buf, ?k1, after_line (stdin w))"
    and cs: "c_string buf = Inr (takeWhile (\<lambda>c. c \<noteq> NUL) ?l)"
    by blast
  have "NUL \<notin> set DSH_TOK_DELIM" by (simp add: NUL_def DSH_TOK_DELIM_def)
  then have "NUL \<notin> set ?l" using assms(2) by auto
  then have "takeWhile (\<lambda>c. c \<noteq> NUL) ?l = ?l" by auto
  then have cs': "c_string buf = Inr ?l" using cs by simp
  have st: "stored_tokens base ?l = []" for base
    using assms(2) by (rule stored_tokens_blank)
  have "int (length (stored_tokens (alloc_addr env (?k1 - 1)) ?l)) + DSH_TOK_BUFSIZE \<le> INT_MAX"
    by (simp add: st DSH_TOK_BUFSIZE_def INT_MAX_def)
  from dsh_split_line_result[OF assms(1) this, of ?k1] obtain arr where
    s: "dsh_split_line (alloc_addr env (?k1 - 1)) (alloc_ok env) ?k1 ?l = Inr (arr, Suc ?k1)"
    and a0: "0 < length arr" "arr ! 0 = Some NULL"
    by (auto simp: st)
  have "arg_at arr 0 = Inr NULL" using a0 by (simp add: arg_at_def)
  then have e: "dsh_execute env arr w' = Some (Inr (1, w'))" for w'
    by (rule dsh_execute_no_token)
  show ?thesis
    using s by (simp add: dsh_loop_body_def Let_def r cs' e)
qed

lemma loop_body_exit:
  assumes "\<forall>j. alloc_ok env j" "first_line (stdin w) = ''exit''"
    and "0 < alloc_addr env (allocs w)" "alloc_addr env (allocs w) + 4 < 2 ^ 31"
  shows "dsh_loop_body env w =
           Some (Inr (0, w\<lparr>stdin := after_line (stdin w),
                           stdout := stdout w @ ''dhruva > '',
                           allocs := allocs w + 2\<rparr>))"
proof -
  let ?k1 = "Suc (allocs w)"
  have fit: "int (length (first_line (stdin w))) + DSH_RL_BUFSIZE \<le> INT_MAX"
    by (simp add: assms(2) DSH_RL_BUFSIZE_def INT_MAX_def)
  from dsh_read_line_result[OF assms(1) fit, of "allocs w"] obtain buf where
    r: "dsh_read_line (alloc_ok env) (allocs w) (stdin w) = Inr (buf, ?k1, after_line (stdin w))"
    and cs: "c_string buf = Inr ''exit''"
    by (auto simp: assms(2) NUL_def)
  have mr: "maximal_runs DSH_TOK_DELIM ''exit'' = [''exit'']"
    by (simp add: maximal_runs_def DSH_TOK_DELIM_def)
  have lo: "alloc_addr env (allocs w) + length ''exit'' < 2 ^ 31" using assms(4) by simp
  from dsh_split_line_low[OF assms(1,3) lo, of ?k1] obtain arr where
    s0: "dsh_split_line (alloc_addr env (allocs w)) (alloc_ok env) ?k1 ''exit'' =
          Inr (arr, Suc ?k1 + length [''exit''] div 64)"
    and t: "take (length [''exit'']) arr = map (\<lambda>t. Some (Tok t)) [''exit'']"
    and lt0: "length [''exit''] < length arr"
    unfolding mr by blast
  have s: "dsh_split_line (alloc_addr env (allocs w)) (alloc_ok env) ?k1 ''exit'' = Inr (arr, Suc ?k1)"
    using s0 by simp
  have lt: "Suc 0 < length arr" using lt0 by simp
  have "arr ! 0 = take (length [''exit'']) arr ! 0" by simp
  then have "arr ! 0 = Some (Tok ''exit'')" unfolding t by simp
  then have "arg_at arr 0 = Inr (Tok ''exit'')" using lt by (auto simp: arg_at_def)
  then have e: "dsh_execute env arr w' = Some (Inr (0, w'))" for w'
    by (simp add: dsh_execute_def builtins_def dsh_exit_def)
  show ?thesis
    using s by (simp add: dsh_loop_body_def Let_def r cs e)
qed

lemma dsh_launch_stdout:
  "dsh_launch e args w = Some (Inr (st, w')) \<Longrightarrow> stdout w' = stdout w"
  by (auto simp: dsh_launch_def split: if_splits sum.splits list.splits option.splits)

lemma dsh_execute_stdout:
  assumes "dsh_execute env args w = Some (Inr (st, w'))"
  shows "\<exists>out. stdout w' = stdout w @ out"
proof (cases "arg_at args 0")
  case (Inl a)
  then show ?thesis using assms by (simp add: dsh_execute_def)
next
  case (Inr p)
  show ?thesis
  proof (cases p)
    case NULL
    then show ?thesis using assms Inr by (simp add: dsh_execute_def)
  next
    case (Wild q)
    then show ?thesis using assms Inr by (simp add: dsh_execute_def)
  next
    case (Tok name)
    have "name = ''cd'' \<or> name = ''help'' \<or> name = ''exit'' \<or>
          find_builtin name builtins = None"
      by (simp add: builtins_def)
    then show ?thesis
    proof (elim disjE)
      assume "name = ''cd''"
      then have "dsh_cd env args w = Inr (st, w')"
        using assms Inr Tok by (simp add: dsh_execute_def builtins_def)
      then have "stdout w' = stdout w"
        by (auto simp: dsh_cd_def split: sum.splits tokptr.splits)
      then show ?thesis by simp
    next
      assume "name = ''help''"
      then have "dsh_help env args w = Inr (st, w')"
        using assms Inr Tok by (simp add: dsh_execute_def builtins_def)
      then show ?thesis by (auto simp: dsh_help_def)
    next
      assume "name = ''exit''"
      then have "dsh_exit env args w = Inr (st, w')"
        using assms Inr Tok by (simp add: dsh_execute_def builtins_def)
      then show ?thesis by (auto simp: dsh_exit_def)
    next
      assume "find_builtin name builtins = None"
      then have "dsh_launch (launch_env_of env (launches w)) args
                   (w\<lparr>launches := Suc (launches w)\<rparr>) = Some (Inr (st, w'))"
        using assms Inr Tok by (simp add: dsh_execute_def)
      from dsh_launch_stdout[OF this] show ?thesis by simp
    qed
  qed
qed

lemma loop_body_prompt:
  assumes "dsh_loop_body env w = Some (Inr (st, w'))"
  shows "\<exists>out. stdout w' = stdout w @ ''dhruva > '' @ out"
proof -
  from assms obtain args w2 where e: "dsh_execute env args w2 = Some (Inr (st, w'))"
    and o: "stdout w2 = stdout w @ ''dhruva > ''"
    by (auto simp: dsh_loop_body_def Let_def split: sum.splits prod.splits)
  from dsh_execute_stdout[OF e] o show ?thesis by auto
qed

lemma find_builtin_first:
  "name \<notin> fst ` set before \<Longrightarrow> find_builtin name (before @ (name, h) # behind) = Some h"
  by (induction before) auto

section \<open>The claims\<close>

subsection \<open>C1: the line reader returns the line\<close>

text \<open>
  C1, as the specification has it, promises the line for inputs of any length. The counters are
  C \<^verbatim>\<open>int\<close>s: on a line of \<open>2147482624 = INT_MAX + 1 - 1024\<close> characters the position
  reaches the capacity \<open>2147482624\<close>, and \<^verbatim>\<open>bufsize += DSH_RL_BUFSIZE\<close> overflows, even
  when every allocation succeeds.
\<close>

theorem dsh_read_line_overflow:
  "dsh_read_line (\<lambda>k. True) 0 (replicate 2147482624 (CHR ''a'')) = Inl SignedOverflow"
proof -
  let ?vs = "replicate 2147482624 (CHR ''a'')"
  have fl: "first_line ?vs = ?vs" by (simp add: first_line_def newline_def)
  have pos: "(0::int) < DSH_RL_BUFSIZE" by (simp add: DSH_RL_BUFSIZE_def)
  have "push_all DSH_RL_BUFSIZE (\<lambda>k. True) (Suc 0) rl_initial ?vs =
      Inl (if INT_MAX < bufsize rl_initial + DSH_RL_BUFSIZE * (int 2097150 + 1)
           then SignedOverflow else allocation_error)"
    by (rule push_all_abort[OF rl_initial_inv pos])
       (simp_all add: rl_initial_def DSH_RL_BUFSIZE_def INT_MAX_def)
  then have "push_all DSH_RL_BUFSIZE (\<lambda>k. True) (Suc 0) rl_initial ?vs = Inl SignedOverflow"
    by (simp add: rl_initial_def DSH_RL_BUFSIZE_def INT_MAX_def)
  then show ?thesis
    by (simp add: dsh_read_line_def rl_loop_eq fl)
qed


text \<open>
  C1, amended. When every allocation succeeds and the first line of stdin has fewer than
  \<open>2147482624\<close> characters (its length plus \<open>DSH_RL_BUFSIZE\<close> fits an \<^verbatim>\<open>int\<close>),
  \<^verbatim>\<open>dsh_read_line\<close> returns a block that holds exactly the characters before the first
  newline or the end of the stream, in order, followed by \<^verbatim>\<open>'\0'\<close>, all inside the block;
  stdin is left behind that newline; read as a C string the block is the line (a line without
  a \<^verbatim>\<open>'\0'\<close> of its own); at the end of the stream with nothing read the block is the empty
  line.
\<close>

theorem dsh_read_line_lossless:
  assumes "\<forall>j. ok j" and "int (length (first_line input)) + DSH_RL_BUFSIZE \<le> INT_MAX"
  shows "\<exists>buf. dsh_read_line ok k input =
                 Inr (buf, Suc k + length (first_line input) div 1024, after_line input) \<and>
               take (length (first_line input)) buf = map Some (first_line input) \<and>
               length (first_line input) < length buf \<and>
               buf ! length (first_line input) = Some NUL \<and>
               (NUL \<notin> set (first_line input) \<longrightarrow> c_string buf = Inr (first_line input)) \<and>
               (input = [] \<longrightarrow> c_string buf = Inr [])"
proof -
  let ?l = "first_line input"
  from dsh_read_line_result[OF assms, of k] obtain buf where
    r: "dsh_read_line ok k input = Inr (buf, Suc k + length ?l div 1024, after_line input)"
    and t: "take (length ?l) buf = map Some ?l"
    and lt: "length ?l < length buf" and z: "buf ! length ?l = Some NUL"
    and cs: "c_string buf = Inr (takeWhile (\<lambda>c. c \<noteq> NUL) ?l)"
    by blast
  have a: "c_string buf = Inr ?l" if "NUL \<notin> set ?l"
  proof -
    have "takeWhile (\<lambda>c. c \<noteq> NUL) ?l = ?l" using that by auto
    then show ?thesis using cs by simp
  qed
  have b: "c_string buf = Inr []" if "input = []"
    using cs that by (simp add: first_line_def)
  show ?thesis using r t lt z a b by blast
qed

theorem dsh_read_line_lossless_witness:
  "\<exists>buf. dsh_read_line (\<lambda>k. True) 0 (''ls -l'' @ newline # ''pwd'') = Inr (buf, 1, ''pwd'') \<and>
         take (length ''ls -l'') buf = map Some ''ls -l'' \<and> length ''ls -l'' < length buf \<and>
         buf ! length ''ls -l'' = Some NUL \<and>
         c_string buf = Inr ''ls -l''"
  using dsh_read_line_lossless[of "\<lambda>k. True" "''ls -l'' @ newline # ''pwd''" 0]
  by (simp add: first_line_def after_line_def newline_def NUL_def DSH_RL_BUFSIZE_def INT_MAX_def)


subsection \<open>C2: the tokenizer and the maximal runs\<close>

text \<open>
  C2 promises the maximal runs of non-delimiter characters for every line. The source file calls
  \<^verbatim>\<open>strtok\<close> with no declaration in scope, so each token pointer reaches
  \<^verbatim>\<open>dsh_split_line\<close> cut to the 32 bits of an \<^verbatim>\<open>int\<close>. For the line \<^verbatim>\<open>ls -l\<close> in a
  block at the address \<open>0x55555555A2A0 = 93824992256672\<close>, with every allocation succeeding,
  the token array that \<^verbatim>\<open>dsh_split_line\<close> returns holds the addresses \<open>0x5555A2A0\<close> and
  \<open>0x5555A2A3\<close>, which are not the tokens', and then the end marker; a consumer that walks the
  array reads through the first of them. The maximal runs of the line are \<^verbatim>\<open>ls\<close> and
  \<^verbatim>\<open>-l\<close>. (Where every token address is below \<open>2 ^ 31\<close> the array holds the maximal runs:
  \<open>dsh_split_line_low\<close>.)
\<close>

theorem dsh_split_line_truncates:
  "dsh_split_line 93824992256672 (\<lambda>k. True) 0 ''ls -l'' =
     Inr ([Some (Wild 1431675552), Some (Wild 1431675555), Some NULL] @ replicate 61 None, 1) \<and>
   argv_of ([Some (Wild 1431675552), Some (Wild 1431675555), Some NULL] @ replicate 61 None) =
     Inl WildPointer \<and>
   maximal_runs DSH_TOK_DELIM ''ls -l'' = [''ls'', ''-l'']"
proof -
  have "dsh_split_line 93824992256672 (\<lambda>k. True) 0 ''ls -l'' =
    Inr ((replicate 64 None)
           [0 := Some (Wild 1431675552), 1 := Some (Wild 1431675555), 2 := Some NULL], 1)"
    by (simp add: dsh_split_line_def tok_loop.simps strtok_def strtok_scan_def Let_def
          implicit_result_def implicit_int_def tok_initial_def DSH_TOK_BUFSIZE_def
          DSH_TOK_DELIM_def is_delim_def push_def store_def advance_def grow_by_def INT_MAX_def
          malloc_cells_def)
  then show ?thesis
    unfolding block_of_64 by (simp add: maximal_runs_def DSH_TOK_DELIM_def numeral_2_eq_2)
qed

subsection \<open>C3: how the buffers grow\<close>

text \<open>
  C3. The line buffer starts with capacity 1024 and the token array with capacity 64. One pass of
  a loop body that returns has raised the capacity by the increment exactly when the advanced
  position has reached the capacity, the block then has the new capacity, every element written
  before is unchanged and the new element is in its place; and a pass returns unless the
  allocator refuses the new block or the new capacity does not fit an \<^verbatim>\<open>int\<close>. Whenever a
  loop returns, the capacity is the increment times one more than the number of whole increments
  in the position, and the block holds every element that was written, in order (for the token
  array: the pointers as the loop received them, \<open>stored_tokens\<close>).
\<close>

theorem capacity_growth:
  "bufsize rl_initial = 1024 \<and> length (cells rl_initial) = 1024 \<and>
   bufsize tok_initial = 64 \<and> length (cells tok_initial) = 64 \<and>
   (0 < inc \<and> dyn_inv inc b \<and> push inc ok k b v = Inr (kg, bg) \<longrightarrow>
      bufsize bg = (if bufsize b \<le> position b + 1 then bufsize b + inc else bufsize b) \<and>
      position bg = position b + 1 \<and>
      int (length (cells bg)) = bufsize bg \<and>
      take (nat (position b)) (cells bg) = take (nat (position b)) (cells b) \<and>
      cells bg ! nat (position b) = Some v \<and>
      dyn_inv inc bg) \<and>
   (0 < inc \<and> dyn_inv inc b \<and>
    (position b + 1 < bufsize b \<or> bufsize b + inc \<le> INT_MAX \<and> ok k) \<longrightarrow>
      (\<exists>kg bg. push inc ok k b v = Inr (kg, bg))) \<and>
   (rl_loop ok kr rl_initial input = Inr (rb, kr', rest) \<longrightarrow>
      bufsize rb = DSH_RL_BUFSIZE * (int (length (first_line input)) div DSH_RL_BUFSIZE + 1) \<and>
      int (length (cells rb)) = bufsize rb \<and>
      take (length (first_line input)) (cells rb) = map Some (first_line input)) \<and>
   (tok_loop base ok kt tok_initial
       (implicit_result base (fst (strtok (Some (0, line)) DSH_TOK_DELIM (0, []))))
       (snd (strtok (Some (0, line)) DSH_TOK_DELIM (0, []))) = Inr (tb, kt') \<longrightarrow>
      bufsize tb = DSH_TOK_BUFSIZE * (int (length (stored_tokens base line)) div DSH_TOK_BUFSIZE + 1) \<and>
      int (length (cells tb)) = bufsize tb \<and>
      take (length (stored_tokens base line)) (cells tb) = map Some (stored_tokens base line))"
proof -
  have a: "bufsize rl_initial = 1024 \<and> length (cells rl_initial) = 1024 \<and>
   bufsize tok_initial = 64 \<and> length (cells tok_initial) = 64"
    by (simp add: rl_initial_def tok_initial_def malloc_cells_def DSH_RL_BUFSIZE_def DSH_TOK_BUFSIZE_def)
  have b: "bufsize bg = (if bufsize b \<le> position b + 1 then bufsize b + inc else bufsize b) \<and>
      position bg = position b + 1 \<and>
      int (length (cells bg)) = bufsize bg \<and>
      take (nat (position b)) (cells bg) = take (nat (position b)) (cells b) \<and>
      cells bg ! nat (position b) = Some v \<and>
      dyn_inv inc bg"
    if h: "0 < inc" "dyn_inv inc b" "push inc ok k b v = Inr (kg, bg)"
  proof -
    from push_Inr[OF h(2,1,3)]
    have i: "dyn_inv inc bg" and q: "position bg = position b + 1"
      and t: "take (nat (position bg)) (cells bg) = take (nat (position b)) (cells b) @ [Some v]"
      by blast+
    have lt: "nat (position b) < length (cells b)" "0 \<le> position b"
      using h(2) by (auto simp: dyn_inv_def)
    have n: "nat (position bg) = Suc (nat (position b))" using q lt(2) by simp
    have ltg: "nat (position b) < length (cells bg)" using i q lt(2) by (auto simp: dyn_inv_def)
    have "take (nat (position b)) (take (nat (position bg)) (cells bg)) = take (nat (position b)) (cells b)"
      unfolding t using lt(1) by simp
    then have tg: "take (nat (position b)) (cells bg) = take (nat (position b)) (cells b)"
      unfolding n by (simp add: min_def)
    have "take (nat (position bg)) (cells bg) ! nat (position b) = Some v"
      unfolding t using lt(1) by (simp add: nth_append)
    then have nth: "cells bg ! nat (position b) = Some v" unfolding n by simp
    have bs: "bufsize bg = (if bufsize b \<le> position b + 1 then bufsize b + inc else bufsize b)"
      using h(3) by (auto simp: push_cases[OF h(2)] split: if_splits)
    show ?thesis using i q tg nth bs by (simp add: dyn_inv_def)
  qed
  have c: "bufsize rb = DSH_RL_BUFSIZE * (int (length (first_line input)) div DSH_RL_BUFSIZE + 1) \<and>
      int (length (cells rb)) = bufsize rb \<and>
      take (length (first_line input)) (cells rb) = map Some (first_line input)"
    if r: "rl_loop ok kr rl_initial input = Inr (rb, kr', rest)"
    using rl_loop_Inr[OF r] by (simp add: DSH_RL_BUFSIZE_def)
  have d: "bufsize tb = DSH_TOK_BUFSIZE * (int (length (stored_tokens base line)) div DSH_TOK_BUFSIZE + 1) \<and>
      int (length (cells tb)) = bufsize tb \<and>
      take (length (stored_tokens base line)) (cells tb) = map Some (stored_tokens base line)"
    if r: "tok_loop base ok kt tok_initial
       (implicit_result base (fst (strtok (Some (0, line)) DSH_TOK_DELIM (0, []))))
       (snd (strtok (Some (0, line)) DSH_TOK_DELIM (0, []))) = Inr (tb, kt')"
    using tok_loop_Inr[OF r[unfolded strtok_def option.case]] by (simp add: DSH_TOK_BUFSIZE_def)
  have e: "\<exists>kg bg. push inc ok k b v = Inr (kg, bg)"
    if h: "dyn_inv inc b" "position b + 1 < bufsize b \<or> bufsize b + inc \<le> INT_MAX \<and> ok k"
    using h(2) by (auto simp: push_cases[OF h(1)])
  show ?thesis using a b c d e by blast
qed

theorem capacity_growth_witness:
  "push 2 (\<lambda>i. True) 0 \<lparr>bufsize = 2, position = 0, cells = [None, None]\<rparr> (CHR ''l'') =
     Inr (0, \<lparr>bufsize = 2, position = 1, cells = [Some (CHR ''l''), None]\<rparr>) \<and>
   push 2 (\<lambda>i. True) 0 \<lparr>bufsize = 2, position = 1, cells = [Some (CHR ''l''), None]\<rparr> (CHR ''s'') =
     Inr (1, \<lparr>bufsize = 4, position = 2, cells = [Some (CHR ''l''), Some (CHR ''s''), None, None]\<rparr>) \<and>
   (\<exists>rb. rl_loop (\<lambda>i. True) 1 rl_initial ''ls -l'' = Inr (rb, 1, []) \<and>
      bufsize rb = 1024 \<and> int (length (cells rb)) = 1024 \<and>
      take (length ''ls -l'') (cells rb) = map Some ''ls -l'') \<and>
   (\<exists>tb. tok_loop 4096 (\<lambda>i. True) 1 tok_initial
       (implicit_result 4096 (fst (strtok (Some (0, ''ls -l'')) DSH_TOK_DELIM (0, []))))
       (snd (strtok (Some (0, ''ls -l'')) DSH_TOK_DELIM (0, []))) = Inr (tb, 1) \<and>
      bufsize tb = 64 \<and> int (length (cells tb)) = 64 \<and>
      take (length [''ls'', ''-l'']) (cells tb) = [Some (Tok ''ls''), Some (Tok ''-l'')])"
proof -
  have fl: "first_line ''ls -l'' = ''ls -l''" "after_line ''ls -l'' = []"
    by (simp_all add: first_line_def after_line_def newline_def)
  have mr: "stored_tokens 4096 ''ls -l'' = [Tok ''ls'', Tok ''-l'']"
    by (simp add: stored_tokens_def DSH_TOK_DELIM_def implicit_result_def implicit_int_def)
  have "\<exists>rb. rl_loop (\<lambda>i. True) 1 rl_initial ''ls -l'' = Inr (rb, 1, [])"
    using rl_loop_ok[of "\<lambda>i. True" "''ls -l''" 1]
    by (simp add: fl DSH_RL_BUFSIZE_def INT_MAX_def)
  then obtain rb where r: "rl_loop (\<lambda>i. True) 1 rl_initial ''ls -l'' = Inr (rb, 1, [])" ..
  have "\<exists>tb. tok_loop 4096 (\<lambda>i. True) 1 tok_initial
       (implicit_result 4096 (fst (strtok_scan DSH_TOK_DELIM (0, ''ls -l''))))
       (snd (strtok_scan DSH_TOK_DELIM (0, ''ls -l''))) = Inr (tb, 1)"
    using tok_loop_ok[of "\<lambda>i. True" 4096 "''ls -l''" 1]
    by (simp add: mr DSH_TOK_BUFSIZE_def INT_MAX_def)
  then obtain tb where t: "tok_loop 4096 (\<lambda>i. True) 1 tok_initial
       (implicit_result 4096 (fst (strtok (Some (0, ''ls -l'')) DSH_TOK_DELIM (0, []))))
       (snd (strtok (Some (0, ''ls -l'')) DSH_TOK_DELIM (0, []))) = Inr (tb, 1)"
    by (auto simp: strtok_def)
  have i: "dyn_inv 2 \<lparr>bufsize = 2, position = 0, cells = [None :: char option, None]\<rparr>"
    "dyn_inv 2 \<lparr>bufsize = 2, position = 1, cells = [Some (CHR ''l''), None]\<rparr>"
    by (simp_all add: dyn_inv_def INT_MAX_def)
  have p1: "push 2 (\<lambda>i. True) 0 \<lparr>bufsize = 2, position = 0, cells = [None, None]\<rparr> (CHR ''l'') =
     Inr (0, \<lparr>bufsize = 2, position = 1, cells = [Some (CHR ''l''), None]\<rparr>)"
    by (simp add: push_def store_def advance_def grow_by_def INT_MAX_def)
  have p2: "push 2 (\<lambda>i. True) 0 \<lparr>bufsize = 2, position = 1, cells = [Some (CHR ''l''), None]\<rparr> (CHR ''s'') =
     Inr (1, \<lparr>bufsize = 4, position = 2, cells = [Some (CHR ''l''), Some (CHR ''s''), None, None]\<rparr>)"
    by (simp add: push_def store_def advance_def grow_by_def realloc_cells_def INT_MAX_def
          numeral_2_eq_2)
  show ?thesis
    using capacity_growth[where inc = 2
        and b = "\<lparr>bufsize = 2, position = 1, cells = [Some (CHR ''l''), None]\<rparr>"
        and ok = "\<lambda>i. True" and k = 0 and v = "CHR ''s''" and kg = 1
        and bg = "\<lparr>bufsize = 4, position = 2, cells = [Some (CHR ''l''), Some (CHR ''s''), None, None]\<rparr>"
        and kr = 1 and input = "''ls -l''" and rb = rb and kr' = 1 and rest = "[]"
        and base = 4096 and kt = 1 and line = "''ls -l''" and tb = tb and kt' = 1]
      r t i p1 p2
    by (simp add: fl mr DSH_RL_BUFSIZE_def DSH_TOK_BUFSIZE_def)
qed

subsection \<open>C4: no token, no action\<close>

text \<open>
  C4. When the first entry of the token array is the end marker, \<^verbatim>\<open>dsh_execute\<close> returns
  "continue" (1) and leaves the surroundings as they are. When the next line of stdin is empty
  or made of delimiters only (and the allocations succeed), a pass of the main loop does nothing
  but print the prompt, consume the line and count its two allocations, and its status is 1.
  The loop then goes on with the next pass on what that pass left, and the next pass prints the
  prompt again: whenever it returns, stdout holds the two prompts, one after the other, behind
  what was there before. In particular, when the line after the blank one is \<^verbatim>\<open>exit\<close> (read
  into a block whose address is not cut by the tokenizer), the shell ends there, having printed
  exactly the two prompts.
\<close>

theorem empty_command_is_noop:
  "(arg_at args 0 = Inr NULL \<longrightarrow> dsh_execute env args w = Some (Inr (1, w))) \<and>
   ((\<forall>j. alloc_ok env j) \<and> set (first_line (stdin w)) \<subseteq> set DSH_TOK_DELIM \<and>
    int (length (first_line (stdin w))) + DSH_RL_BUFSIZE \<le> INT_MAX \<longrightarrow>
      dsh_loop_body env w =
        Some (Inr (1, w\<lparr>stdin := after_line (stdin w),
                        stdout := stdout w @ ''dhruva > '',
                        allocs := allocs w + 2 + length (first_line (stdin w)) div 1024\<rparr>)) \<and>
      dsh_loop env w =
        dsh_loop env (w\<lparr>stdin := after_line (stdin w),
                        stdout := stdout w @ ''dhruva > '',
                        allocs := allocs w + 2 + length (first_line (stdin w)) div 1024\<rparr>) \<and>
      dsh_loop env w =
        (case dsh_loop_body env
                (w\<lparr>stdin := after_line (stdin w),
                   stdout := stdout w @ ''dhruva > '',
                   allocs := allocs w + 2 + length (first_line (stdin w)) div 1024\<rparr>) of
           None \<Rightarrow> None
         | Some (Inl a) \<Rightarrow> Some (Inl a)
         | Some (Inr (status, w')) \<Rightarrow> if status \<noteq> 0 then dsh_loop env w' else Some (Inr w')) \<and>
      (\<forall>status w'.
          dsh_loop_body env
            (w\<lparr>stdin := after_line (stdin w),
               stdout := stdout w @ ''dhruva > '',
               allocs := allocs w + 2 + length (first_line (stdin w)) div 1024\<rparr>) =
            Some (Inr (status, w')) \<longrightarrow>
          (\<exists>out. stdout w' = stdout w @ ''dhruva > '' @ ''dhruva > '' @ out)) \<and>
      (first_line (after_line (stdin w)) = ''exit'' \<and>
       0 < alloc_addr env (allocs w + 2 + length (first_line (stdin w)) div 1024) \<and>
       alloc_addr env (allocs w + 2 + length (first_line (stdin w)) div 1024) + 4 < 2 ^ 31 \<longrightarrow>
         dsh_loop env w =
           Some (Inr (w\<lparr>stdin := after_line (after_line (stdin w)),
                         stdout := stdout w @ ''dhruva > '' @ ''dhruva > '',
                         allocs := allocs w + 4 + length (first_line (stdin w)) div 1024\<rparr>))))"
proof (intro conjI impI allI)
  assume "arg_at args 0 = Inr NULL"
  then show "dsh_execute env args w = Some (Inr (1, w))" by (rule dsh_execute_no_token)
next
  let ?w = "w\<lparr>stdin := after_line (stdin w),
               stdout := stdout w @ ''dhruva > '',
               allocs := allocs w + 2 + length (first_line (stdin w)) div 1024\<rparr>"
  assume a: "(\<forall>j. alloc_ok env j) \<and> set (first_line (stdin w)) \<subseteq> set DSH_TOK_DELIM \<and>
    int (length (first_line (stdin w))) + DSH_RL_BUFSIZE \<le> INT_MAX"
  then show b: "dsh_loop_body env w = Some (Inr (1, ?w))"
    by (intro loop_body_blank) simp_all
  show c: "dsh_loop env w = dsh_loop env ?w"
    by (subst dsh_loop.simps) (simp add: b)
  show "dsh_loop env w =
        (case dsh_loop_body env ?w of
           None \<Rightarrow> None
         | Some (Inl a) \<Rightarrow> Some (Inl a)
         | Some (Inr (status, w')) \<Rightarrow> if status \<noteq> 0 then dsh_loop env w' else Some (Inr w'))"
    unfolding c by (subst dsh_loop.simps) (simp split: option.splits sum.splits prod.splits)
  {
    fix status w'
    assume "dsh_loop_body env ?w = Some (Inr (status, w'))"
    from loop_body_prompt[OF this]
    show "\<exists>out. stdout w' = stdout w @ ''dhruva > '' @ ''dhruva > '' @ out" by simp
  }
  assume e: "first_line (after_line (stdin w)) = ''exit'' \<and>
       0 < alloc_addr env (allocs w + 2 + length (first_line (stdin w)) div 1024) \<and>
       alloc_addr env (allocs w + 2 + length (first_line (stdin w)) div 1024) + 4 < 2 ^ 31"
  have "dsh_loop_body env ?w =
          Some (Inr (0, ?w\<lparr>stdin := after_line (stdin ?w),
                           stdout := stdout ?w @ ''dhruva > '',
                           allocs := allocs ?w + 2\<rparr>))"
    using a e by (intro loop_body_exit) simp_all
  then have "dsh_loop env ?w =
          Some (Inr (?w\<lparr>stdin := after_line (stdin ?w),
                        stdout := stdout ?w @ ''dhruva > '',
                        allocs := allocs ?w + 2\<rparr>))"
    by (subst dsh_loop.simps) simp
  then show "dsh_loop env w =
           Some (Inr (w\<lparr>stdin := after_line (after_line (stdin w)),
                         stdout := stdout w @ ''dhruva > '' @ ''dhruva > '',
                         allocs := allocs w + 4 + length (first_line (stdin w)) div 1024\<rparr>))"
    unfolding c by simp
qed

theorem empty_command_is_noop_witness:
  "dsh_execute
     \<lparr>alloc_ok = \<lambda>j. True, alloc_addr = \<lambda>j. 4096,
       launch_env_of = \<lambda>n. \<lparr>fork_pid = - 1, fork_error = ''Resource temporarily unavailable'',
                              exec_error = None, wait_reports = \<lambda>i. NeverReturns\<rparr>,
       chdir_result = \<lambda>d p. Inr p, cd_usage = ''usage'', help_text = ''help''\<rparr>
     [Some NULL]
     \<lparr>stdin = [CHR 0x20, CHR 0x09, CHR 0x20] @ newline # ''exit'', stdout = [], stderr = [],
       cwd = ''/'', allocs = 0, launches = 0\<rparr>
   = Some (Inr (1, \<lparr>stdin = [CHR 0x20, CHR 0x09, CHR 0x20] @ newline # ''exit'', stdout = [],
                     stderr = [], cwd = ''/'', allocs = 0, launches = 0\<rparr>)) \<and>
   dsh_loop_body
     \<lparr>alloc_ok = \<lambda>j. True, alloc_addr = \<lambda>j. 4096,
       launch_env_of = \<lambda>n. \<lparr>fork_pid = - 1, fork_error = ''Resource temporarily unavailable'',
                              exec_error = None, wait_reports = \<lambda>i. NeverReturns\<rparr>,
       chdir_result = \<lambda>d p. Inr p, cd_usage = ''usage'', help_text = ''help''\<rparr>
     \<lparr>stdin = [CHR 0x20, CHR 0x09, CHR 0x20] @ newline # ''exit'', stdout = [], stderr = [],
       cwd = ''/'', allocs = 0, launches = 0\<rparr>
   = Some (Inr (1, \<lparr>stdin = ''exit'', stdout = ''dhruva > '', stderr = [],
                     cwd = ''/'', allocs = 2, launches = 0\<rparr>)) \<and>
   dsh_loop
     \<lparr>alloc_ok = \<lambda>j. True, alloc_addr = \<lambda>j. 4096,
       launch_env_of = \<lambda>n. \<lparr>fork_pid = - 1, fork_error = ''Resource temporarily unavailable'',
                              exec_error = None, wait_reports = \<lambda>i. NeverReturns\<rparr>,
       chdir_result = \<lambda>d p. Inr p, cd_usage = ''usage'', help_text = ''help''\<rparr>
     \<lparr>stdin = [CHR 0x20, CHR 0x09, CHR 0x20] @ newline # ''exit'', stdout = [], stderr = [],
       cwd = ''/'', allocs = 0, launches = 0\<rparr>
   = Some (Inr \<lparr>stdin = [], stdout = ''dhruva > dhruva > '', stderr = [],
                 cwd = ''/'', allocs = 4, launches = 0\<rparr>)"
proof -
  let ?env = "\<lparr>alloc_ok = \<lambda>j. True, alloc_addr = \<lambda>j. 4096,
       launch_env_of = \<lambda>n. \<lparr>fork_pid = - 1, fork_error = ''Resource temporarily unavailable'',
                              exec_error = None, wait_reports = \<lambda>i. NeverReturns\<rparr>,
       chdir_result = \<lambda>d p. Inr p, cd_usage = ''usage'', help_text = ''help''\<rparr>"
  let ?w = "\<lparr>stdin = [CHR 0x20, CHR 0x09, CHR 0x20] @ newline # ''exit'', stdout = [], stderr = [],
       cwd = ''/'', allocs = 0, launches = 0\<rparr>"
  have fl: "first_line (stdin ?w) = [CHR 0x20, CHR 0x09, CHR 0x20]"
    "after_line (stdin ?w) = ''exit''" "first_line ''exit'' = ''exit''" "after_line ''exit'' = []"
    by (simp_all add: first_line_def after_line_def newline_def)
  have h1: "arg_at [Some NULL] 0 = Inr NULL" by (simp add: arg_at_def)
  have h2: "(\<forall>j. alloc_ok ?env j) \<and> set (first_line (stdin ?w)) \<subseteq> set DSH_TOK_DELIM \<and>
    int (length (first_line (stdin ?w))) + DSH_RL_BUFSIZE \<le> INT_MAX"
    unfolding fl by (simp add: DSH_TOK_DELIM_def DSH_RL_BUFSIZE_def INT_MAX_def)
  have h3: "first_line (after_line (stdin ?w)) = ''exit'' \<and>
       0 < alloc_addr ?env (allocs ?w + 2 + length (first_line (stdin ?w)) div 1024) \<and>
       alloc_addr ?env (allocs ?w + 2 + length (first_line (stdin ?w)) div 1024) + 4 < 2 ^ 31"
    unfolding fl by simp
  from empty_command_is_noop[of "[Some NULL]" ?env ?w] h1 h2 h3
  have "dsh_execute ?env [Some NULL] ?w = Some (Inr (1, ?w))"
    and "dsh_loop_body ?env ?w =
        Some (Inr (1, ?w\<lparr>stdin := after_line (stdin ?w),
                        stdout := stdout ?w @ ''dhruva > '',
                        allocs := allocs ?w + 2 + length (first_line (stdin ?w)) div 1024\<rparr>))"
    and "dsh_loop ?env ?w =
           Some (Inr (?w\<lparr>stdin := after_line (after_line (stdin ?w)),
                         stdout := stdout ?w @ ''dhruva > '' @ ''dhruva > '',
                         allocs := allocs ?w + 4 + length (first_line (stdin ?w)) div 1024\<rparr>))"
    by blast+
  then show ?thesis unfolding fl by simp
qed

subsection \<open>C5: the built-ins are found by name\<close>

text \<open>
  C5. The table holds \<^verbatim>\<open>cd\<close>, \<^verbatim>\<open>help\<close>, \<^verbatim>\<open>exit\<close> in this order. Token 0 equal to
  \<^verbatim>\<open>exit\<close> gives "stop" (0) with the surroundings unchanged, whatever follows it in the
  array; \<^verbatim>\<open>cd\<close> and \<^verbatim>\<open>help\<close> give their handlers; every other string, also one
  that differs in case only, goes to the launcher; and among several entries with the same name
  the search returns the first.
\<close>

theorem dispatch_builtins:
  "map fst builtins = [''cd'', ''help'', ''exit''] \<and>
   (arg_at args 0 = Inr (Tok ''exit'') \<longrightarrow> dsh_execute env args w = Some (Inr (0, w))) \<and>
   (arg_at args 0 = Inr (Tok ''cd'') \<longrightarrow> dsh_execute env args w = Some (dsh_cd env args w)) \<and>
   (arg_at args 0 = Inr (Tok ''help'') \<longrightarrow> dsh_execute env args w = Some (dsh_help env args w)) \<and>
   (arg_at args 0 = Inr (Tok name) \<and> name \<noteq> ''cd'' \<and> name \<noteq> ''help'' \<and> name \<noteq> ''exit'' \<longrightarrow>
      dsh_execute env args w =
        dsh_launch (launch_env_of env (launches w)) args (w\<lparr>launches := Suc (launches w)\<rparr>)) \<and>
   (name \<notin> fst ` set before \<longrightarrow>
      find_builtin name (before @ (name, h) # behind) = Some h)"
proof -
  have names: "map fst builtins = [''cd'', ''help'', ''exit'']"
    by (simp add: builtins_def)
  have found: "find_builtin ''cd'' builtins = Some dsh_cd"
    "find_builtin ''help'' builtins = Some dsh_help"
    "find_builtin ''exit'' builtins = Some dsh_exit"
    by (simp_all add: builtins_def)
  have missed: "find_builtin name builtins = None"
    if "name \<noteq> ''cd''" "name \<noteq> ''help''" "name \<noteq> ''exit''"
    using that by (simp add: builtins_def)
  have ex: "dsh_execute env args w = Some (Inr (0, w))" if "arg_at args 0 = Inr (Tok ''exit'')"
    using that by (simp add: dsh_execute_def found dsh_exit_def)
  have cd: "dsh_execute env args w = Some (dsh_cd env args w)" if "arg_at args 0 = Inr (Tok ''cd'')"
    using that by (simp add: dsh_execute_def found)
  have he: "dsh_execute env args w = Some (dsh_help env args w)" if "arg_at args 0 = Inr (Tok ''help'')"
    using that by (simp add: dsh_execute_def found)
  have la: "dsh_execute env args w =
        dsh_launch (launch_env_of env (launches w)) args (w\<lparr>launches := Suc (launches w)\<rparr>)"
    if "arg_at args 0 = Inr (Tok name)" "name \<noteq> ''cd''" "name \<noteq> ''help''" "name \<noteq> ''exit''"
    using that by (simp add: dsh_execute_def missed)
  have fi: "find_builtin name (before @ (name, h) # behind) = Some h"
    if "name \<notin> fst ` set before"
    using that by (rule find_builtin_first)
  show ?thesis using names ex cd he la fi by blast
qed

theorem dispatch_builtins_witness:
  "dsh_execute
     \<lparr>alloc_ok = \<lambda>j. True, alloc_addr = \<lambda>j. 4096,
       launch_env_of = \<lambda>n. \<lparr>fork_pid = - 1, fork_error = ''Resource temporarily unavailable'',
                              exec_error = None, wait_reports = \<lambda>i. NeverReturns\<rparr>,
       chdir_result = \<lambda>d p. Inr p, cd_usage = ''usage'', help_text = ''help''\<rparr>
     [Some (Tok ''exit''), Some (Tok ''now''), Some NULL]
     \<lparr>stdin = ''ls'', stdout = ''dhruva > '', stderr = [], cwd = ''/'', allocs = 2, launches = 0\<rparr>
   = Some (Inr (0, \<lparr>stdin = ''ls'', stdout = ''dhruva > '', stderr = [], cwd = ''/'',
                     allocs = 2, launches = 0\<rparr>)) \<and>
   dsh_execute
     \<lparr>alloc_ok = \<lambda>j. True, alloc_addr = \<lambda>j. 4096,
       launch_env_of = \<lambda>n. \<lparr>fork_pid = - 1, fork_error = ''Resource temporarily unavailable'',
                              exec_error = None, wait_reports = \<lambda>i. NeverReturns\<rparr>,
       chdir_result = \<lambda>d p. Inr p, cd_usage = ''usage'', help_text = ''help''\<rparr>
     [Some (Tok ''EXIT''), Some NULL]
     \<lparr>stdin = ''ls'', stdout = ''dhruva > '', stderr = [], cwd = ''/'', allocs = 2, launches = 0\<rparr>
   = Some (Inr (1, \<lparr>stdin = ''ls'', stdout = ''dhruva > '',
                     stderr = ''dsh: Resource temporarily unavailable'' @ [CHR 0x0A], cwd = ''/'',
                     allocs = 2, launches = 1\<rparr>)) \<and>
   find_builtin ''exit'' [(''cd'', 0::nat), (''exit'', 1), (''help'', 2), (''exit'', 3)] = Some 1"
  using dispatch_builtins[of "[Some (Tok ''exit''), Some (Tok ''now''), Some NULL]"
     "\<lparr>alloc_ok = \<lambda>j. True, alloc_addr = \<lambda>j. 4096,
       launch_env_of = \<lambda>n. \<lparr>fork_pid = - 1, fork_error = ''Resource temporarily unavailable'',
                              exec_error = None, wait_reports = \<lambda>i. NeverReturns\<rparr>,
       chdir_result = \<lambda>d p. Inr p, cd_usage = ''usage'', help_text = ''help''\<rparr>"
     "\<lparr>stdin = ''ls'', stdout = ''dhruva > '', stderr = [], cwd = ''/'', allocs = 2, launches = 0\<rparr>"
     "''exit''" "[(''cd'', 0::nat)]" "1::nat" "[(''help'', 2), (''exit'', 3)]"]
    dispatch_builtins[of "[Some (Tok ''EXIT''), Some NULL]"
     "\<lparr>alloc_ok = \<lambda>j. True, alloc_addr = \<lambda>j. 4096,
       launch_env_of = \<lambda>n. \<lparr>fork_pid = - 1, fork_error = ''Resource temporarily unavailable'',
                              exec_error = None, wait_reports = \<lambda>i. NeverReturns\<rparr>,
       chdir_result = \<lambda>d p. Inr p, cd_usage = ''usage'', help_text = ''help''\<rparr>"
     "\<lparr>stdin = ''ls'', stdout = ''dhruva > '', stderr = [], cwd = ''/'', allocs = 2, launches = 0\<rparr>"
     "''EXIT''" "[]" "()" "[]"]
  by (simp add: arg_at_def dsh_launch_def perror_def)

subsection \<open>C6: the launcher always says continue\<close>

text \<open>
  C6. When \<^verbatim>\<open>fork\<close> fails, \<^verbatim>\<open>dsh_launch\<close> writes its diagnostic to stderr and returns 1
  with nothing else changed. In the parent it returns 1 as soon as the child is reported exited
  (with any code, so also after a failed \<^verbatim>\<open>execvp\<close>, where the child exits with
  \<^verbatim>\<open>EXIT_FAILURE\<close>) or terminated by a signal. Whenever it returns, it returns 1, and it
  never returns in the child: there the call ends with the new program image or with the exit
  of the child after its diagnostic.
\<close>

theorem dsh_launch_continues:
  "(fork_pid e < 0 \<longrightarrow>
      dsh_launch e args w = Some (Inr (1, w\<lparr>stderr := stderr w @ perror ''dsh'' (fork_error e)\<rparr>))) \<and>
   (0 < fork_pid e \<and> (\<forall>i<n. \<exists>s. wait_reports e i = Reported s \<and> \<not> terminal s) \<and>
    (wait_reports e n = Reported (Exited c) \<or> wait_reports e n = Reported (Signaled c)) \<longrightarrow>
      dsh_launch e args w = Some (Inr (1, w))) \<and>
   (dsh_launch e args w = Some (Inr (st, w')) \<longrightarrow> st = 1 \<and> fork_pid e \<noteq> 0) \<and>
   (fork_pid e = 0 \<longrightarrow>
      (\<exists>a. dsh_launch e args w = Some (Inl a)) \<and>
      (argv_of args = Inr (prog # rest) \<and> exec_error e = Some msg \<longrightarrow>
         dsh_launch e args w = Some (Inl (ProcessExit (perror ''dsh'' msg) EXIT_FAILURE))))"
proof (intro conjI impI)
  assume "fork_pid e < 0"
  then show "dsh_launch e args w =
      Some (Inr (1, w\<lparr>stderr := stderr w @ perror ''dsh'' (fork_error e)\<rparr>))"
    by (simp add: dsh_launch_def)
next
  assume a: "0 < fork_pid e \<and> (\<forall>i<n. \<exists>s. wait_reports e i = Reported s \<and> \<not> terminal s) \<and>
    (wait_reports e n = Reported (Exited c) \<or> wait_reports e n = Reported (Signaled c))"
  then obtain t where t: "wait_reports e n = Reported t" "terminal t"
    by (auto simp: terminal_def)
  have "wait_loop (wait_reports e) None 0 = Some (Inr (Suc n))"
    using a t by (intro wait_loop_first[where rep = "wait_reports e" and n = n and t = t]) auto
  then show "dsh_launch e args w = Some (Inr (1, w))"
    using a by (simp add: dsh_launch_parent)
next
  assume a: "dsh_launch e args w = Some (Inr (st, w'))"
  then show "st = 1"
    by (auto simp: dsh_launch_def split: if_splits sum.splits list.splits option.splits)
  show "fork_pid e \<noteq> 0"
    using a by (auto simp: dsh_launch_def split: if_splits sum.splits list.splits option.splits)
next
  assume "fork_pid e = 0"
  then show "\<exists>a. dsh_launch e args w = Some (Inl a)"
    by (auto simp: dsh_launch_def split: sum.splits list.splits option.splits)
next
  assume "fork_pid e = 0" "argv_of args = Inr (prog # rest) \<and> exec_error e = Some msg"
  then show "dsh_launch e args w = Some (Inl (ProcessExit (perror ''dsh'' msg) EXIT_FAILURE))"
    by (simp add: dsh_launch_def)
qed

theorem dsh_launch_continues_witness:
  "dsh_launch \<lparr>fork_pid = - 1, fork_error = ''Cannot allocate memory'', exec_error = None,
                wait_reports = \<lambda>i. NeverReturns\<rparr>
     [Some (Tok ''ls''), Some NULL]
     \<lparr>stdin = [], stdout = ''dhruva > '', stderr = [], cwd = ''/'', allocs = 2, launches = 1\<rparr> =
     Some (Inr (1, \<lparr>stdin = [], stdout = ''dhruva > '',
                     stderr = ''dsh: Cannot allocate memory'' @ [CHR 0x0A], cwd = ''/'',
                     allocs = 2, launches = 1\<rparr>)) \<and>
   dsh_launch \<lparr>fork_pid = 4711, fork_error = [], exec_error = None,
                wait_reports = \<lambda>i. if i < 1 then Reported (Stopped 19) else Reported (Exited 1)\<rparr>
     [Some (Tok ''definitely_not_a_real_command_xyz''), Some NULL]
     \<lparr>stdin = [], stdout = ''dhruva > '', stderr = [], cwd = ''/'', allocs = 2, launches = 1\<rparr> =
     Some (Inr (1, \<lparr>stdin = [], stdout = ''dhruva > '', stderr = [], cwd = ''/'', allocs = 2,
                     launches = 1\<rparr>)) \<and>
   dsh_launch \<lparr>fork_pid = 0, fork_error = [], exec_error = Some ''No such file or directory'',
                wait_reports = \<lambda>i. NeverReturns\<rparr>
     [Some (Tok ''definitely_not_a_real_command_xyz''), Some NULL]
     \<lparr>stdin = [], stdout = ''dhruva > '', stderr = [], cwd = ''/'', allocs = 2, launches = 1\<rparr> =
     Some (Inl (ProcessExit (''dsh: No such file or directory'' @ [CHR 0x0A]) EXIT_FAILURE))"
proof -
  let ?e1 = "\<lparr>fork_pid = - 1, fork_error = ''Cannot allocate memory'', exec_error = None,
                wait_reports = \<lambda>i. NeverReturns\<rparr>"
  let ?e2 = "\<lparr>fork_pid = 4711, fork_error = [], exec_error = None,
                wait_reports = \<lambda>i::nat. if i < 1 then Reported (Stopped 19) else Reported (Exited 1)\<rparr>"
  let ?e3 = "\<lparr>fork_pid = 0, fork_error = [], exec_error = Some ''No such file or directory'',
                wait_reports = \<lambda>i. NeverReturns\<rparr>"
  let ?a1 = "[Some (Tok ''ls''), Some NULL]"
  let ?a2 = "[Some (Tok ''definitely_not_a_real_command_xyz''), Some NULL]"
  let ?w = "\<lparr>stdin = [], stdout = ''dhruva > '', stderr = [], cwd = ''/'', allocs = 2, launches = 1\<rparr>"
  have h1: "fork_pid ?e1 < 0" by simp
  have h2: "0 < fork_pid ?e2 \<and> (\<forall>i<1. \<exists>s. wait_reports ?e2 i = Reported s \<and> \<not> terminal s) \<and>
    (wait_reports ?e2 1 = Reported (Exited 1) \<or> wait_reports ?e2 1 = Reported (Signaled 1))"
    by (simp add: terminal_def)
  have h3: "fork_pid ?e3 = 0"
    "argv_of ?a2 = Inr (''definitely_not_a_real_command_xyz'' # []) \<and>
     exec_error ?e3 = Some ''No such file or directory''"
    by simp_all
  have a: "dsh_launch ?e1 ?a1 ?w =
             Some (Inr (1, ?w\<lparr>stderr := stderr ?w @ perror ''dsh'' (fork_error ?e1)\<rparr>))"
    using dsh_launch_continues[where e = ?e1 and args = ?a1 and w = ?w] h1 by blast
  have b: "dsh_launch ?e2 ?a2 ?w = Some (Inr (1, ?w))"
    using dsh_launch_continues[where e = ?e2 and args = ?a2 and w = ?w and n = 1 and c = 1] h2
    by blast
  have c: "dsh_launch ?e3 ?a2 ?w =
             Some (Inl (ProcessExit (perror ''dsh'' ''No such file or directory'') EXIT_FAILURE))"
    using dsh_launch_continues[where e = ?e3 and args = ?a2 and w = ?w
        and prog = "''definitely_not_a_real_command_xyz''" and rest = "[]"
        and msg = "''No such file or directory''"] h3
    by blast
  show ?thesis using a b c by (simp add: perror_def)
qed

subsection \<open>C7: a failing allocation ends the process\<close>

text \<open>
  C7. Let the request number \<open>k + j\<close> be the first one that fails, counting from the
  \<^verbatim>\<open>malloc\<close> of the call (\<open>j = 0\<close>) through its \<^verbatim>\<open>realloc\<close>s. If the call gets that
  far (the line has at least \<open>1024 * j\<close> characters, the token array gets at least
  \<open>64 * j\<close> pointers, and the new capacity fits an \<^verbatim>\<open>int\<close>), it ends the process: the line
  \<^verbatim>\<open>dsh: allocation error\<close> is written to stderr and the exit status is
  \<^verbatim>\<open>EXIT_FAILURE\<close>. Nothing is returned.
\<close>

theorem allocation_failure_exits:
  assumes "\<forall>i<j. ok (k + i)" "\<not> ok (k + j)"
  shows "(1024 * int j \<le> int (length (first_line input)) \<and> 1024 * (int j + 1) \<le> INT_MAX \<longrightarrow>
            dsh_read_line ok k input =
              Inl (ProcessExit (''dsh: allocation error'' @ [CHR 0x0A]) EXIT_FAILURE)) \<and>
         (64 * int j \<le> int (length (stored_tokens base line)) \<and> 64 * (int j + 1) \<le> INT_MAX \<longrightarrow>
            dsh_split_line base ok k line =
              Inl (ProcessExit (''dsh: allocation error'' @ [CHR 0x0A]) EXIT_FAILURE))"
proof -
  from first_failure_cases[OF assms]
  consider "j = 0" "\<not> ok k"
    | j' where "j = Suc j'" "ok k" "\<forall>i<j'. ok (Suc k + i)" "\<not> ok (Suc k + j')"
    by blast
  then show ?thesis
  proof cases
    case 1
    then show ?thesis
      by (simp add: dsh_read_line_def dsh_split_line_def allocation_error_def)
  next
    case 2
    have r: "dsh_read_line ok k input = Inl allocation_error"
      if "1024 * int j \<le> int (length (first_line input))" "1024 * (int j + 1) \<le> INT_MAX"
    proof -
      have "rl_loop ok (Suc k) rl_initial input = Inl allocation_error"
        using that 2(1) by (intro rl_loop_abort[OF 2(3,4)]) (simp_all add: algebra_simps)
      then show ?thesis using 2(2) by (simp add: dsh_read_line_def)
    qed
    have t: "dsh_split_line base ok k line = Inl allocation_error"
      if "64 * int j \<le> int (length (stored_tokens base line))" "64 * (int j + 1) \<le> INT_MAX"
    proof -
      have "tok_loop base ok (Suc k) tok_initial
             (implicit_result base (fst (strtok_scan DSH_TOK_DELIM (0, line))))
             (snd (strtok_scan DSH_TOK_DELIM (0, line))) = Inl allocation_error"
        using that 2(1) by (intro tok_loop_abort[OF 2(3,4)]) (simp_all add: algebra_simps)
      then show ?thesis using 2(2) by (simp add: dsh_split_line_def strtok_def)
    qed
    show ?thesis using r t by (simp add: allocation_error_def)
  qed
qed

theorem allocation_failure_exits_witness:
  "dsh_read_line (\<lambda>i. False) 0 ''ls'' =
     Inl (ProcessExit (''dsh: allocation error'' @ [CHR 0x0A]) EXIT_FAILURE) \<and>
   dsh_split_line 4096 (\<lambda>i. False) 0 ''ls'' =
     Inl (ProcessExit (''dsh: allocation error'' @ [CHR 0x0A]) EXIT_FAILURE) \<and>
   dsh_read_line (\<lambda>i. i < 6) 5 (replicate 1024 (CHR ''a'') @ newline # ''ls'') =
     Inl (ProcessExit (''dsh: allocation error'' @ [CHR 0x0A]) EXIT_FAILURE) \<and>
   dsh_split_line 4096 (\<lambda>i. i < 6) 5 (concat (replicate 64 ''a '')) =
     Inl (ProcessExit (''dsh: allocation error'' @ [CHR 0x0A]) EXIT_FAILURE)"
proof -
  have runs: "maximal_runs DSH_TOK_DELIM (concat (replicate n ''a '')) = replicate n ''a''" for n
  proof (induction n)
    case 0
    show ?case by (simp add: maximal_runs_def)
  next
    case (Suc n)
    have "maximal_runs DSH_TOK_DELIM (''a'' @ CHR 0x20 # concat (replicate n ''a '')) =
          ''a'' # maximal_runs DSH_TOK_DELIM (CHR 0x20 # concat (replicate n ''a ''))"
      by (rule maximal_runs_token) (simp_all add: DSH_TOK_DELIM_def)
    also have "maximal_runs DSH_TOK_DELIM (CHR 0x20 # concat (replicate n ''a '')) =
               maximal_runs DSH_TOK_DELIM (concat (replicate n ''a ''))"
      using maximal_runs_lead[of "[CHR 0x20]" DSH_TOK_DELIM] by (simp add: DSH_TOK_DELIM_def)
    finally show ?case using Suc by simp
  qed
  have fl: "first_line (replicate 1024 (CHR ''a'') @ newline # ''ls'') = replicate 1024 (CHR ''a'')"
    by (simp add: first_line_def newline_def takeWhile_tail)
  have len: "length (concat (replicate n ''a '')) = 2 * n" for n
    by (induction n) simp_all
  have "stored_tokens 4096 (concat (replicate 64 ''a '')) =
        map Tok (maximal_runs DSH_TOK_DELIM (concat (replicate 64 ''a '')))"
    by (rule stored_tokens_low) (simp_all add: len)
  then have st: "length (stored_tokens 4096 (concat (replicate 64 ''a ''))) = 64"
    unfolding runs by simp
  show ?thesis
    using allocation_failure_exits[of 0 "\<lambda>i. False" 0 "''ls''" 4096 "''ls''"]
      allocation_failure_exits[of 1 "\<lambda>i. i < 6" 5 "replicate 1024 (CHR ''a'') @ newline # ''ls''"
        4096 "concat (replicate 64 ''a '')"]
    unfolding fl st by (simp add: INT_MAX_def)
qed

subsection \<open>C8: the parent waits for a terminal state\<close>

text \<open>
  C8. In the parent (\<^verbatim>\<open>fork\<close> returned a pid), when the first \<open>n\<close> calls of
  \<^verbatim>\<open>waitpid\<close> report states that are not terminal and the next one reports a terminal
  state, the loop makes exactly \<open>n + 1\<close> calls and \<^verbatim>\<open>dsh_launch\<close> returns; when every
  report is of a state that is not terminal, it never returns; and whenever it returns, the last
  report it has read is the first terminal one.
\<close>

theorem wait_until_terminal:
  assumes "0 < fork_pid e"
  shows "((\<forall>i<n. \<exists>s. wait_reports e i = Reported s \<and> \<not> terminal s) \<and>
          (\<exists>t. wait_reports e n = Reported t \<and> terminal t) \<longrightarrow>
            wait_loop (wait_reports e) None 0 = Some (Inr (Suc n)) \<and>
            dsh_launch e args w = Some (Inr (1, w))) \<and>
         ((\<forall>i. \<exists>s. wait_reports e i = Reported s \<and> \<not> terminal s) \<longrightarrow>
            wait_loop (wait_reports e) None 0 = None \<and> dsh_launch e args w = None) \<and>
         (dsh_launch e args w = Some (Inr r) \<longrightarrow>
            (\<exists>m t. wait_loop (wait_reports e) None 0 = Some (Inr (Suc m)) \<and>
                   wait_reports e m = Reported t \<and> terminal t \<and>
                   (\<forall>i<m. \<forall>s. wait_reports e i = Reported s \<longrightarrow> \<not> terminal s)))"
proof (intro conjI impI)
  assume a: "(\<forall>i<n. \<exists>s. wait_reports e i = Reported s \<and> \<not> terminal s) \<and>
          (\<exists>t. wait_reports e n = Reported t \<and> terminal t)"
  then obtain t where t: "wait_reports e n = Reported t" "terminal t" by blast
  show l: "wait_loop (wait_reports e) None 0 = Some (Inr (Suc n))"
    using a t by (intro wait_loop_first[where rep = "wait_reports e" and n = n and t = t]) auto
  show "dsh_launch e args w = Some (Inr (1, w))"
    by (simp add: dsh_launch_parent[OF assms] l)
next
  assume a: "\<forall>i. \<exists>s. wait_reports e i = Reported s \<and> \<not> terminal s"
  show l: "wait_loop (wait_reports e) None 0 = None"
    using a by (intro wait_loop_never) auto
  show "dsh_launch e args w = None"
    by (simp add: dsh_launch_parent[OF assms] l)
next
  assume a: "dsh_launch e args w = Some (Inr r)"
  then obtain k where l: "wait_loop (wait_reports e) None 0 = Some (Inr k)"
    by (auto simp: dsh_launch_parent[OF assms] split: option.splits sum.splits)
  from wait_loop_returns[OF l]
  have k: "0 < k" and "\<exists>t. wait_reports e (k - 1) = Reported t \<and> terminal t"
    and b: "\<forall>i. 0 \<le> i \<and> i < k - 1 \<longrightarrow> (\<forall>s. wait_reports e i = Reported s \<longrightarrow> \<not> terminal s)"
    by auto
  then obtain t where t: "wait_reports e (k - 1) = Reported t" "terminal t" by blast
  have "wait_loop (wait_reports e) None 0 = Some (Inr (Suc (k - 1)))" using l k by simp
  then show "\<exists>m t. wait_loop (wait_reports e) None 0 = Some (Inr (Suc m)) \<and>
                   wait_reports e m = Reported t \<and> terminal t \<and>
                   (\<forall>i<m. \<forall>s. wait_reports e i = Reported s \<longrightarrow> \<not> terminal s)"
    using t b by blast
qed

theorem wait_until_terminal_witness:
  "wait_loop (\<lambda>i. if i < 2 then Reported (Stopped 19) else Reported (Signaled 9)) None 0 =
     Some (Inr 3) \<and>
   dsh_launch \<lparr>fork_pid = 4711, fork_error = [], exec_error = None,
                wait_reports = \<lambda>i. if i < 2 then Reported (Stopped 19) else Reported (Signaled 9)\<rparr>
     [Some (Tok ''sleep''), Some (Tok ''9''), Some NULL]
     \<lparr>stdin = [], stdout = ''dhruva > '', stderr = [], cwd = ''/'', allocs = 2, launches = 1\<rparr> =
     Some (Inr (1, \<lparr>stdin = [], stdout = ''dhruva > '', stderr = [], cwd = ''/'', allocs = 2,
                     launches = 1\<rparr>)) \<and>
   dsh_launch \<lparr>fork_pid = 4711, fork_error = [], exec_error = None,
                wait_reports = \<lambda>i. Reported (Stopped 19)\<rparr>
     [Some (Tok ''sleep''), Some (Tok ''9''), Some NULL]
     \<lparr>stdin = [], stdout = ''dhruva > '', stderr = [], cwd = ''/'', allocs = 2, launches = 1\<rparr> =
     None"
proof -
  let ?rep = "\<lambda>i::nat. if i < 2 then Reported (Stopped 19) else Reported (Signaled 9)"
  let ?e = "\<lparr>fork_pid = 4711, fork_error = [], exec_error = None, wait_reports = ?rep\<rparr>"
  let ?f = "\<lparr>fork_pid = 4711, fork_error = [], exec_error = None,
             wait_reports = \<lambda>i. Reported (Stopped 19)\<rparr>"
  let ?args = "[Some (Tok ''sleep''), Some (Tok ''9''), Some NULL]"
  let ?w = "\<lparr>stdin = [], stdout = ''dhruva > '', stderr = [], cwd = ''/'', allocs = 2, launches = 1\<rparr>"
  have p: "0 < fork_pid ?e" "0 < fork_pid ?f" by simp_all
  have h1: "(\<forall>i<2. \<exists>s. wait_reports ?e i = Reported s \<and> \<not> terminal s) \<and>
          (\<exists>t. wait_reports ?e 2 = Reported t \<and> terminal t)"
    by (simp add: terminal_def)
  have h2: "\<forall>i. \<exists>s. wait_reports ?f i = Reported s \<and> \<not> terminal s"
    by (simp add: terminal_def)
  from wait_until_terminal[OF p(1), of 2 ?args ?w] h1
  have a: "wait_loop (wait_reports ?e) None 0 = Some (Inr (Suc 2)) \<and>
           dsh_launch ?e ?args ?w = Some (Inr (1, ?w))"
    by blast
  from wait_until_terminal[OF p(2), of 0 ?args ?w] h2
  have b: "dsh_launch ?f ?args ?w = None"
    by blast
  have "Suc 2 = 3" by simp
  then show ?thesis using a b by simp
qed

subsection \<open>C9: splitting, joining and splitting again\<close>

text \<open>
  C9 joins the tokens that \<^verbatim>\<open>dsh_split_line\<close> returns and splits the result again. The
  tokens come from the same undeclared \<^verbatim>\<open>strtok\<close> as in C2. For the line
  \<^verbatim>\<open>"  ls   -l "\<close> in a block at the address \<open>0x7FFFF7A3B010 = 140737348087824\<close>, with
  every allocation succeeding, the array holds the addresses \<open>0xFFFFFFFFF7A3B012\<close> and
  \<open>0xFFFFFFFFF7A3B017\<close> (the low 32 bits of the tokens' addresses, extended with their sign)
  and the end marker, so there are no tokens to read and to join. The maximal runs of the line,
  joined with single spaces, are \<^verbatim>\<open>ls -l\<close>. (Where every token address is below \<open>2 ^ 31\<close>
  the claim holds: \<open>split_join_split_low\<close>.)
\<close>

theorem split_join_unreadable:
  "dsh_split_line 140737348087824 (\<lambda>k. True) 0 ''  ls   -l '' =
     Inr ([Some (Wild 18446744073569284114), Some (Wild 18446744073569284119), Some NULL] @
          replicate 61 None, 1) \<and>
   argv_of ([Some (Wild 18446744073569284114), Some (Wild 18446744073569284119), Some NULL] @
            replicate 61 None) = Inl WildPointer \<and>
   join_spaces (maximal_runs DSH_TOK_DELIM ''  ls   -l '') = ''ls -l''"
proof -
  have "dsh_split_line 140737348087824 (\<lambda>k. True) 0 ''  ls   -l '' =
    Inr ((replicate 64 None)
           [0 := Some (Wild 18446744073569284114), 1 := Some (Wild 18446744073569284119),
            2 := Some NULL], 1)"
    by (simp add: dsh_split_line_def tok_loop.simps strtok_def strtok_scan_def Let_def
          implicit_result_def implicit_int_def tok_initial_def DSH_TOK_BUFSIZE_def
          DSH_TOK_DELIM_def is_delim_def push_def store_def advance_def grow_by_def INT_MAX_def
          malloc_cells_def)
  then show ?thesis
    unfolding block_of_64 by (simp add: maximal_runs_def DSH_TOK_DELIM_def numeral_2_eq_2)
qed

subsection \<open>C10: every store is inside the block\<close>

text \<open>
  C10. Whatever the allocator answers, neither function ever stores outside its block: a
  store at an index that is not below the allocated size would end the run with
  \<open>OutOfBounds\<close>, and a run that does not return ends with the allocation error or with the
  signed overflow of the capacity. When a loop returns, the terminator (\<^verbatim>\<open>'\0'\<close> or
  \<^verbatim>\<open>NULL\<close>) sits at the final position, which is below the capacity, and the capacity is
  the size of the block. At the head of a loop pass (\<open>dyn_inv\<close>) the store and the whole pass
  stay inside the block.
\<close>

theorem stores_in_bounds:
  "dsh_read_line ok k input \<noteq> Inl OutOfBounds \<and>
   dsh_split_line base ok k line \<noteq> Inl OutOfBounds \<and>
   (dsh_read_line ok k input = Inl a \<longrightarrow> a = SignedOverflow \<or> a = allocation_error) \<and>
   (dsh_split_line base ok k line = Inl a' \<longrightarrow> a' = SignedOverflow \<or> a' = allocation_error) \<and>
   (rl_loop ok k rl_initial input = Inr (rb, k', rest) \<longrightarrow>
      0 \<le> position rb \<and> position rb < int (length (cells rb)) \<and>
      int (length (cells rb)) = bufsize rb \<and> cells rb ! nat (position rb) = Some NUL) \<and>
   (tok_loop base ok k tok_initial
       (implicit_result base (fst (strtok (Some (0, line)) DSH_TOK_DELIM (0, []))))
       (snd (strtok (Some (0, line)) DSH_TOK_DELIM (0, []))) = Inr (tb, k'') \<longrightarrow>
      0 \<le> position tb \<and> position tb < int (length (cells tb)) \<and>
      int (length (cells tb)) = bufsize tb \<and> cells tb ! nat (position tb) = Some NULL) \<and>
   (dyn_inv inc b \<longrightarrow> store b v \<noteq> Inl OutOfBounds \<and> push inc ok k b v \<noteq> Inl OutOfBounds)"
proof -
  have a: "dsh_read_line ok k input \<noteq> Inl OutOfBounds"
    using dsh_read_line_aborts[of ok k input OutOfBounds] by auto
  have b: "dsh_split_line base ok k line \<noteq> Inl OutOfBounds"
    using dsh_split_line_aborts[of base ok k line OutOfBounds] by auto
  have a': "dsh_read_line ok k input = Inl a \<longrightarrow> a = SignedOverflow \<or> a = allocation_error"
    using dsh_read_line_aborts by blast
  have b': "dsh_split_line base ok k line = Inl a' \<longrightarrow> a' = SignedOverflow \<or> a' = allocation_error"
    using dsh_split_line_aborts by blast
  have c: "0 \<le> position rb \<and> position rb < int (length (cells rb)) \<and>
      int (length (cells rb)) = bufsize rb \<and> cells rb ! nat (position rb) = Some NUL"
    if r: "rl_loop ok k rl_initial input = Inr (rb, k', rest)"
  proof -
    from rl_loop_Inr[OF r]
    have bs: "bufsize rb = 1024 * (int (length (first_line input)) div 1024 + 1)"
      and q: "position rb = int (length (first_line input))"
      and len: "int (length (cells rb)) = bufsize rb"
      and z: "cells rb ! length (first_line input) = Some NUL"
      by blast+
    have "int (length (first_line input)) < 1024 * (int (length (first_line input)) div 1024 + 1)"
      using pos_mod_bound[of 1024 "int (length (first_line input))"]
      by (simp add: algebra_simps minus_mod_eq_mult_div[symmetric])
    then show ?thesis using bs q len z by simp
  qed
  have d: "0 \<le> position tb \<and> position tb < int (length (cells tb)) \<and>
      int (length (cells tb)) = bufsize tb \<and> cells tb ! nat (position tb) = Some NULL"
    if r: "tok_loop base ok k tok_initial
       (implicit_result base (fst (strtok (Some (0, line)) DSH_TOK_DELIM (0, []))))
       (snd (strtok (Some (0, line)) DSH_TOK_DELIM (0, []))) = Inr (tb, k'')"
  proof -
    let ?ts = "stored_tokens base line"
    from tok_loop_Inr[OF r[unfolded strtok_def option.case]]
    have bs: "bufsize tb = 64 * (int (length ?ts) div 64 + 1)"
      and q: "position tb = int (length ?ts)"
      and len: "int (length (cells tb)) = bufsize tb"
      and z: "cells tb ! length ?ts = Some NULL"
      by blast+
    have "int (length ?ts) < 64 * (int (length ?ts) div 64 + 1)"
      using pos_mod_bound[of 64 "int (length ?ts)"]
      by (simp add: algebra_simps minus_mod_eq_mult_div[symmetric])
    then show ?thesis using bs q len z by simp
  qed
  have e: "store b v \<noteq> Inl OutOfBounds \<and> push inc ok k b v \<noteq> Inl OutOfBounds"
    if i: "dyn_inv inc b"
  proof -
    from store_facts[OF i, of v] have "store b v \<noteq> Inl OutOfBounds" by auto
    moreover have "push inc ok k b v \<noteq> Inl OutOfBounds"
      by (simp add: push_cases[OF i])
    ultimately show ?thesis ..
  qed
  show ?thesis using a b a' b' c d e by blast
qed

theorem stores_in_bounds_witness:
  "dsh_read_line (\<lambda>i. True) 0 ''ls -l'' \<noteq> Inl OutOfBounds \<and>
   dsh_split_line 4096 (\<lambda>i. True) 0 ''ls -l'' \<noteq> Inl OutOfBounds \<and>
   (\<exists>rb. rl_loop (\<lambda>i. True) 1 rl_initial ''ls -l'' = Inr (rb, 1, []) \<and>
      position rb = 5 \<and> bufsize rb = 1024 \<and> position rb < int (length (cells rb)) \<and>
      cells rb ! nat (position rb) = Some NUL) \<and>
   (\<exists>tb. tok_loop 4096 (\<lambda>i. True) 1 tok_initial
       (implicit_result 4096 (fst (strtok (Some (0, ''ls -l'')) DSH_TOK_DELIM (0, []))))
       (snd (strtok (Some (0, ''ls -l'')) DSH_TOK_DELIM (0, []))) = Inr (tb, 1) \<and>
      position tb = 2 \<and> bufsize tb = 64 \<and> position tb < int (length (cells tb)) \<and>
      cells tb ! nat (position tb) = Some NULL) \<and>
   store \<lparr>bufsize = 2, position = 1, cells = [Some (CHR ''l''), None]\<rparr> (CHR ''s'') =
     Inr \<lparr>bufsize = 2, position = 1, cells = [Some (CHR ''l''), Some (CHR ''s'')]\<rparr>"
proof -
  have fl: "first_line ''ls -l'' = ''ls -l''" "after_line ''ls -l'' = []"
    by (simp_all add: first_line_def after_line_def newline_def)
  have mr: "stored_tokens 4096 ''ls -l'' = [Tok ''ls'', Tok ''-l'']"
    by (simp add: stored_tokens_def DSH_TOK_DELIM_def implicit_result_def implicit_int_def)
  have "\<exists>rb. rl_loop (\<lambda>i. True) 1 rl_initial ''ls -l'' = Inr (rb, 1, [])"
    using rl_loop_ok[of "\<lambda>i. True" "''ls -l''" 1]
    by (simp add: fl DSH_RL_BUFSIZE_def INT_MAX_def)
  then obtain rb where r: "rl_loop (\<lambda>i. True) 1 rl_initial ''ls -l'' = Inr (rb, 1, [])" ..
  have "\<exists>tb. tok_loop 4096 (\<lambda>i. True) 1 tok_initial
       (implicit_result 4096 (fst (strtok_scan DSH_TOK_DELIM (0, ''ls -l''))))
       (snd (strtok_scan DSH_TOK_DELIM (0, ''ls -l''))) = Inr (tb, 1)"
    using tok_loop_ok[of "\<lambda>i. True" 4096 "''ls -l''" 1]
    by (simp add: mr DSH_TOK_BUFSIZE_def INT_MAX_def)
  then obtain tb where t: "tok_loop 4096 (\<lambda>i. True) 1 tok_initial
       (implicit_result 4096 (fst (strtok (Some (0, ''ls -l'')) DSH_TOK_DELIM (0, []))))
       (snd (strtok (Some (0, ''ls -l'')) DSH_TOK_DELIM (0, []))) = Inr (tb, 1)"
    by (auto simp: strtok_def)
  have i: "dyn_inv 2 \<lparr>bufsize = 2, position = 1, cells = [Some (CHR ''l''), None]\<rparr>"
    by (simp add: dyn_inv_def INT_MAX_def)
  have s: "store \<lparr>bufsize = 2, position = 1, cells = [Some (CHR ''l''), None]\<rparr> (CHR ''s'') =
     Inr \<lparr>bufsize = 2, position = 1, cells = [Some (CHR ''l''), Some (CHR ''s'')]\<rparr>"
    by (simp add: store_def)
  from rl_loop_Inr[OF r] have p: "position rb = 5" "bufsize rb = 1024" by (simp_all add: fl)
  from tok_loop_Inr[OF t[unfolded strtok_def option.case]]
  have q: "position tb = 2" "bufsize tb = 64" by (simp_all add: mr)
  show ?thesis
    using stores_in_bounds[where ok = "\<lambda>i. True" and k = 0 and input = "''ls -l''"
        and base = 4096 and line = "''ls -l''"]
      stores_in_bounds[where ok = "\<lambda>i. True" and k = 1 and input = "''ls -l''"
        and base = 4096 and line = "''ls -l''" and rb = rb and k' = 1 and rest = "[]" and tb = tb and k'' = 1
        and inc = 2 and b = "\<lparr>bufsize = 2, position = 1, cells = [Some (CHR ''l''), None]\<rparr>"
        and v = "CHR ''s''"]
      r t i s p q
    by auto
qed

end
